theory Spec2Isabelle
  imports Main "HOL-Library.Signed_Division"
begin

section \<open>The reader of .msh files of t8code\<close>

text \<open>
  The functions of \<^verbatim>\<open>src/t8_cmesh/t8_cmesh_readmshfile.c\<close> as HOL functions. A C
  string is a \<open>string\<close> without its terminating NUL. What the C standard leaves undefined
  (reading an uninitialised object, a null pointer, a division by zero, a write behind an
  array) and a failed \<^verbatim>\<open>T8_ASSERT\<close> end a run: such a run is \<open>Inl\<close> of a \<open>crash\<close>.
  A run that returns is \<open>Inr\<close> of what it returns and leaves behind.
\<close>

subsection \<open>Element classes and the tables of the registry\<close>

datatype t8_eclass =
    T8_ECLASS_VERTEX | T8_ECLASS_LINE | T8_ECLASS_QUAD | T8_ECLASS_TRIANGLE
  | T8_ECLASS_HEX | T8_ECLASS_TET | T8_ECLASS_PRISM | T8_ECLASS_PYRAMID
  | T8_ECLASS_COUNT

definition T8_NUM_GMSH_ELEM_CLASSES :: int where
  "T8_NUM_GMSH_ELEM_CLASSES = 15"

definition t8_msh_element_type_to_eclass :: "t8_eclass list" where
  "t8_msh_element_type_to_eclass =
     [T8_ECLASS_COUNT, T8_ECLASS_LINE, T8_ECLASS_TRIANGLE, T8_ECLASS_QUAD, T8_ECLASS_TET,
      T8_ECLASS_HEX, T8_ECLASS_PRISM, T8_ECLASS_PYRAMID,
      T8_ECLASS_COUNT, T8_ECLASS_COUNT, T8_ECLASS_COUNT, T8_ECLASS_COUNT,
      T8_ECLASS_COUNT, T8_ECLASS_COUNT, T8_ECLASS_COUNT,
      T8_ECLASS_VERTEX]"

text \<open>
  The rows of the C table have eight entries; the entries that the initialiser leaves out
  are zero. \<^const>\<open>T8_ECLASS_COUNT\<close> is the number of rows and has no row of its own.
\<close>

fun t8_msh_element_vertex_to_t8_vertex_num :: "t8_eclass \<Rightarrow> nat list" where
  "t8_msh_element_vertex_to_t8_vertex_num T8_ECLASS_VERTEX = [0, 0, 0, 0, 0, 0, 0, 0]"
| "t8_msh_element_vertex_to_t8_vertex_num T8_ECLASS_LINE = [0, 1, 0, 0, 0, 0, 0, 0]"
| "t8_msh_element_vertex_to_t8_vertex_num T8_ECLASS_QUAD = [0, 1, 3, 2, 0, 0, 0, 0]"
| "t8_msh_element_vertex_to_t8_vertex_num T8_ECLASS_TRIANGLE = [0, 1, 2, 0, 0, 0, 0, 0]"
| "t8_msh_element_vertex_to_t8_vertex_num T8_ECLASS_HEX = [0, 1, 5, 4, 2, 3, 7, 6]"
| "t8_msh_element_vertex_to_t8_vertex_num T8_ECLASS_TET = [0, 1, 2, 3, 0, 0, 0, 0]"
| "t8_msh_element_vertex_to_t8_vertex_num T8_ECLASS_PRISM = [0, 1, 2, 3, 4, 5, 8, 0]"
| "t8_msh_element_vertex_to_t8_vertex_num T8_ECLASS_PYRAMID = [0, 1, 3, 2, 4, 0, 0, 0]"
| "t8_msh_element_vertex_to_t8_vertex_num T8_ECLASS_COUNT = []"

text \<open>
  Modelled from the spec: the tables \<^verbatim>\<open>t8_eclass_to_dimension\<close> and
  \<^verbatim>\<open>t8_eclass_num_vertices\<close> of \<^verbatim>\<open>t8_eclass.h\<close>, which the reader only uses
  (the class to topological dimension and class to vertex count tables of the registry).
  Their values are those of the shapes that the classes name: a point, a line, a
  quadrilateral, a triangle, a hexahedron, a tetrahedron, a prism and a pyramid. The C
  tables have no entry for \<^const>\<open>T8_ECLASS_COUNT\<close>, and the reader reads none: the
  values given for it here are never used.
\<close>

fun t8_eclass_to_dimension :: "t8_eclass \<Rightarrow> int" where
  "t8_eclass_to_dimension T8_ECLASS_VERTEX = 0"
| "t8_eclass_to_dimension T8_ECLASS_LINE = 1"
| "t8_eclass_to_dimension T8_ECLASS_QUAD = 2"
| "t8_eclass_to_dimension T8_ECLASS_TRIANGLE = 2"
| "t8_eclass_to_dimension T8_ECLASS_HEX = 3"
| "t8_eclass_to_dimension T8_ECLASS_TET = 3"
| "t8_eclass_to_dimension T8_ECLASS_PRISM = 3"
| "t8_eclass_to_dimension T8_ECLASS_PYRAMID = 3"
| "t8_eclass_to_dimension T8_ECLASS_COUNT = - 1"

fun t8_eclass_num_vertices :: "t8_eclass \<Rightarrow> nat" where
  "t8_eclass_num_vertices T8_ECLASS_VERTEX = 1"
| "t8_eclass_num_vertices T8_ECLASS_LINE = 2"
| "t8_eclass_num_vertices T8_ECLASS_QUAD = 4"
| "t8_eclass_num_vertices T8_ECLASS_TRIANGLE = 3"
| "t8_eclass_num_vertices T8_ECLASS_HEX = 8"
| "t8_eclass_num_vertices T8_ECLASS_TET = 4"
| "t8_eclass_num_vertices T8_ECLASS_PRISM = 6"
| "t8_eclass_num_vertices T8_ECLASS_PYRAMID = 5"
| "t8_eclass_num_vertices T8_ECLASS_COUNT = 0"

subsection \<open>Runs that do not return\<close>

datatype crash =
    Uninit_Read | Null_Deref | Div_By_Zero | Signed_Overflow | Buffer_Overflow
  | Double_Free | Use_After_Free | Assertion_Failed

subsection \<open>The stream and the line reader\<close>

text \<open>
  A stream is the list of the lines of the file that are still unread, each with its
  terminating newline (the last line of a file may have none), and the end-of-file
  indicator. \<open>contents\<close> are all the lines, for \<^verbatim>\<open>fseek (fp, 0, SEEK_SET)\<close>.
\<close>

record stream =
  contents :: "string list"
  unread :: "string list"
  eof :: bool

fun lines_of :: "string \<Rightarrow> string list" where
  "lines_of [] = []"
| "lines_of (c # cs) =
     (if c = CHR 0x0A then [c] # lines_of cs
      else (case lines_of cs of [] \<Rightarrow> [[c]] | l # ls \<Rightarrow> (c # l) # ls))"

definition fopen :: "string \<Rightarrow> stream" where
  "fopen bytes = \<lparr>contents = lines_of bytes, unread = lines_of bytes, eof = False\<rparr>"

definition fseek0 :: "stream \<Rightarrow> stream" where
  "fseek0 fp = fp\<lparr>unread := contents fp, eof := False\<rparr>"

definition terminated :: "string \<Rightarrow> bool" where
  "terminated l = (l \<noteq> [] \<and> last l = CHR 0x0A)"

text \<open>
  \<^verbatim>\<open>getline\<close>: the next line with its newline, or failure at the end of the file, which
  leaves the buffer as it was. Reading a last line that has no newline reaches the end of
  the file and sets the indicator.
\<close>

definition getline :: "stream \<Rightarrow> string option \<times> stream" where
  "getline fp =
     (case unread fp of
        [] \<Rightarrow> (None, fp\<lparr>eof := True\<rparr>)
      | l # ls \<Rightarrow> (Some l, fp\<lparr>unread := ls, eof := (eof fp \<or> \<not> terminated l)\<rparr>))"

text \<open>What the string functions of C see of a buffer: its bytes before the first NUL.\<close>

definition c_str :: "string \<Rightarrow> string" where
  "c_str l = takeWhile (\<lambda>c. c \<noteq> CHR 0x00) l"

definition strspn :: "string \<Rightarrow> string \<Rightarrow> nat" where
  "strspn s accept = length (takeWhile (\<lambda>c. c \<in> set accept) s)"

definition blank_chars :: string where
  "blank_chars = [CHR '' '', CHR 0x09, CHR 0x0D, CHR 0x0B, CHR 0x0A]"

definition comment_or_blank :: "string \<Rightarrow> bool" where
  "comment_or_blank line =
     ((line \<noteq> [] \<and> hd line = CHR ''#'') \<or> strspn line blank_chars = length line)"

text \<open>
  The line buffer is \<open>None\<close> while it is uninitialised memory. The result is whether
  a line was read (\<^verbatim>\<open>retval >= 0\<close>), the buffer and the stream.
\<close>

function t8_cmesh_msh_read_next_line ::
  "string option \<Rightarrow> stream \<Rightarrow> bool \<times> string option \<times> stream" where
  "t8_cmesh_msh_read_next_line line fp =
     (case getline fp of
        (None, fp') \<Rightarrow> (False, line, fp')
      | (Some l, fp') \<Rightarrow>
          (if comment_or_blank (c_str l)
           then t8_cmesh_msh_read_next_line (Some (c_str l)) fp'
           else (True, Some (c_str l), fp')))"
  by pat_completeness auto
termination
  by (relation "measure (\<lambda>(line, fp). length (unread fp))")
     (auto simp: getline_def split: list.splits)

declare t8_cmesh_msh_read_next_line.simps [simp del]

subsection \<open>The conversions of sscanf\<close>

text \<open>
  The conversions \<^verbatim>\<open>%li\<close>, \<^verbatim>\<open>%i\<close> and \<^verbatim>\<open>%lf\<close> of the C library are parameters of
  the model: each takes the input, skips leading white space and either fails or gives
  the value that it stores and the input behind it. The type \<open>'c\<close> stands for
  \<^verbatim>\<open>double\<close>.
\<close>

record 'c scanf =
  scan_long :: "string \<Rightarrow> (int \<times> string) option"
  scan_int :: "string \<Rightarrow> (int \<times> string) option"
  scan_double :: "string \<Rightarrow> ('c \<times> string) option"

definition isspace :: "char \<Rightarrow> bool" where
  "isspace c = (c \<in> set [CHR '' '', CHR 0x09, CHR 0x0A, CHR 0x0B, CHR 0x0C, CHR 0x0D])"

text \<open>
  \<^verbatim>\<open>sscanf (line, "%2048s", first_word)\<close> with \<^verbatim>\<open>char first_word[2048]\<close>: a word of
  2048 characters or more is cut to 2048 characters, whose terminating NUL is written
  behind the array. \<open>Inr None\<close> is a return value other than 1.
\<close>

definition sscanf_word :: "string \<Rightarrow> crash + string option" where
  "sscanf_word line =
     (let rest = dropWhile isspace line in
      if rest = [] then Inr None
      else let w = takeWhile (\<lambda>c. \<not> isspace c) rest in
        if 2048 \<le> length w then Inl Buffer_Overflow else Inr (Some w))"

text \<open>\<^verbatim>\<open>sscanf (line, "%li %lf %lf %lf", ...)\<close>; \<open>None\<close> is a return value other than 4.\<close>

definition sscanf_node :: "'c scanf \<Rightarrow> string \<Rightarrow> (int \<times> 'c \<times> 'c \<times> 'c) option" where
  "sscanf_node sc line =
     (case scan_long sc line of None \<Rightarrow> None
      | Some (i, r1) \<Rightarrow>
     (case scan_double sc r1 of None \<Rightarrow> None
      | Some (x, r2) \<Rightarrow>
     (case scan_double sc r2 of None \<Rightarrow> None
      | Some (y, r3) \<Rightarrow>
     (case scan_double sc r3 of None \<Rightarrow> None
      | Some (z, r4) \<Rightarrow> Some (i, x, y, z)))))"

text \<open>
  \<^verbatim>\<open>sscanf (line, "%*i %i %i", &ele_type, &num_tags)\<close>, whose return value the reader
  ignores: a variable that is not assigned keeps what it held (\<open>None\<close>: nothing yet).
\<close>

definition sscanf_header ::
  "'c scanf \<Rightarrow> string \<Rightarrow> int option \<Rightarrow> int option \<Rightarrow> int option \<times> int option" where
  "sscanf_header sc line ele_type num_tags =
     (case scan_int sc line of None \<Rightarrow> (ele_type, num_tags)
      | Some (n, r1) \<Rightarrow>
     (case scan_int sc r1 of None \<Rightarrow> (ele_type, num_tags)
      | Some (t, r2) \<Rightarrow>
     (case scan_int sc r2 of None \<Rightarrow> (Some t, num_tags)
      | Some (k, r3) \<Rightarrow> (Some t, Some k))))"

text \<open>
  \<^verbatim>\<open>strsep (&line_modify, " ")\<close>: the new value of \<^verbatim>\<open>line_modify\<close>, which is the text
  behind the first blank, or NULL (\<open>None\<close>) when there is no blank.
\<close>

definition strsep :: "string option \<Rightarrow> string option" where
  "strsep stringp =
     (case stringp of None \<Rightarrow> None
      | Some s \<Rightarrow>
          (case dropWhile (\<lambda>c. c \<noteq> CHR '' '') s of [] \<Rightarrow> None | c # rest \<Rightarrow> Some rest))"

subsection \<open>The node table\<close>

text \<open>
  Modelled from the spec: the type \<^verbatim>\<open>t8_locidx_t\<close> of \<^verbatim>\<open>t8.h\<close>, a signed integer of
  64 bits (the external index of a node record). \<open>locidx_of_long\<close> is the conversion of
  a \<^verbatim>\<open>long\<close> to it.
\<close>

definition T8_LOCIDX_BITS :: nat where
  "T8_LOCIDX_BITS = 64"

definition locidx_of_long :: "int \<Rightarrow> int" where
  "locidx_of_long x = signed_take_bit (T8_LOCIDX_BITS - 1) x"

record 'c t8_msh_file_node_t =
  index :: int
  coordinates :: "'c \<times> 'c \<times> 'c"

text \<open>
  The hash value of a node reads only \<^verbatim>\<open>Node->index\<close>, which is the first argument here;
  the second is \<^verbatim>\<open>*num_nodes\<close>. The remainder of C has the sign of the dividend and goes
  into an \<^verbatim>\<open>unsigned\<close> of 32 bits.
\<close>

definition t8_msh_file_node_hash :: "int \<Rightarrow> int \<Rightarrow> crash + nat" where
  "t8_msh_file_node_hash Node_index Num_nodes =
     (if Num_nodes = 0 then Inl Div_By_Zero
      else if Node_index = - (2 ^ (T8_LOCIDX_BITS - 1)) \<and> Num_nodes = - 1
        then Inl Signed_Overflow
      else Inr (nat ((Node_index smod Num_nodes) mod 2 ^ 32)))"

definition t8_msh_file_node_compare :: "int \<Rightarrow> int \<Rightarrow> bool" where
  "t8_msh_file_node_compare Node_a_index Node_b_index = (Node_a_index = Node_b_index)"

text \<open>
  The hash table of libsc, at its interface: \<open>user_data\<close> is the number of nodes that
  \<^verbatim>\<open>sc_hash_new\<close> was given, and every entry is kept with the hash value under which
  it was stored. An entry is found under the hash value of the key, by the comparison.
\<close>

record 'c sc_hash =
  user_data :: int
  entries :: "(nat \<times> 'c t8_msh_file_node_t) list"

definition sc_hash_new :: "int \<Rightarrow> 'c sc_hash" where
  "sc_hash_new num_nodes = \<lparr>user_data = num_nodes, entries = []\<rparr>"

definition sc_hash_lookup ::
  "'c sc_hash \<Rightarrow> int \<Rightarrow> crash + 'c t8_msh_file_node_t option" where
  "sc_hash_lookup hash v =
     (case t8_msh_file_node_hash v (user_data hash) of
        Inl c \<Rightarrow> Inl c
      | Inr hval \<Rightarrow>
          Inr (map_option snd
            (find (\<lambda>(h, n). h = hval \<and> t8_msh_file_node_compare (index n) v) (entries hash))))"

text \<open>The result is the return value (false: the node was in the table) and the table.\<close>

definition sc_hash_insert_unique ::
  "'c sc_hash \<Rightarrow> 'c t8_msh_file_node_t \<Rightarrow> crash + (bool \<times> 'c sc_hash)" where
  "sc_hash_insert_unique hash v =
     (case t8_msh_file_node_hash (index v) (user_data hash) of
        Inl c \<Rightarrow> Inl c
      | Inr hval \<Rightarrow>
          (case find (\<lambda>(h, n). h = hval \<and> t8_msh_file_node_compare (index n) (index v))
                  (entries hash) of
             Some e \<Rightarrow> Inr (False, hash)
           | None \<Rightarrow> Inr (True, hash\<lparr>entries := entries hash @ [(hval, v)]\<rparr>)))"

subsection \<open>Reading the nodes\<close>

text \<open>
  The line reader only moves forward: it never gives a line back and never clears the
  end-of-file indicator, and a call that reads no line sets the indicator. The loop that
  looks for a section ends for this reason.
\<close>

lemma read_next_line_unread:
  "t8_cmesh_msh_read_next_line line fp = (ok, line', fp') \<Longrightarrow>
   length (unread fp') \<le> length (unread fp) \<and> (eof fp \<longrightarrow> eof fp') \<and>
   (length (unread fp') < length (unread fp) \<or> eof fp')"
proof (induction line fp arbitrary: ok line' fp' rule: t8_cmesh_msh_read_next_line.induct)
  case (1 line fp)
  show ?case
  proof (cases "unread fp")
    case Nil
    with "1.prems" show ?thesis
      by (auto simp: t8_cmesh_msh_read_next_line.simps [of line fp] getline_def)
  next
    case (Cons l ls)
    let ?fp = "fp\<lparr>unread := ls, eof := (eof fp \<or> \<not> terminated l)\<rparr>"
    have g: "getline fp = (Some l, ?fp)"
      using Cons by (simp add: getline_def)
    show ?thesis
    proof (cases "comment_or_blank (c_str l)")
      case True
      with g "1.prems" have "t8_cmesh_msh_read_next_line (Some (c_str l)) ?fp = (ok, line', fp')"
        by (simp add: t8_cmesh_msh_read_next_line.simps [of line fp])
      from "1.IH" [OF g [symmetric] refl True this] Cons show ?thesis
        by auto
    next
      case False
      with g "1.prems" Cons show ?thesis
        by (auto simp: t8_cmesh_msh_read_next_line.simps [of line fp])
    qed
  qed
qed

text \<open>
  The loop over the lines that start a section, which \<^verbatim>\<open>t8_msh_file_read_nodes\<close> runs for
  \<^verbatim>\<open>$Nodes\<close> and \<^verbatim>\<open>t8_cmesh_msh_file_read_eles\<close> for \<^verbatim>\<open>$Elements\<close>. The result is
  whether the loop was left at its end (false: by \<^verbatim>\<open>goto\<close>), the buffer and the stream.
\<close>

function find_section ::
  "string \<Rightarrow> string \<Rightarrow> string option \<Rightarrow> stream \<Rightarrow> crash + (bool \<times> string option \<times> stream)"
where
  "find_section marker first_word line fp =
     (if \<not> eof fp \<and> first_word \<noteq> marker then
        (case t8_cmesh_msh_read_next_line line fp of
           (ok, line', fp') \<Rightarrow>
             (case line' of
                None \<Rightarrow> Inl Uninit_Read
              | Some l \<Rightarrow>
                  (case sscanf_word l of
                     Inl c \<Rightarrow> Inl c
                   | Inr None \<Rightarrow> Inr (False, line', fp')
                   | Inr (Some w) \<Rightarrow> find_section marker w line' fp')))
      else Inr (True, line, fp))"
  by pat_completeness auto
termination
  apply (relation "measure (\<lambda>(marker, first_word, line, fp).
         length (unread fp) + (if eof fp then 0 else 1))")
   apply simp
  apply clarsimp
  apply (drule sym)
  apply (drule read_next_line_unread)
  apply auto
  done

declare find_section.simps [simp del]

text \<open>
  What becomes of the pool of the nodes and of the hash table. After \<^verbatim>\<open>die_node\<close> the
  caller's pointer to the pool is what it was: \<^verbatim>\<open>node_mempool = NULL\<close> sets the
  parameter, not the caller's variable.
\<close>

datatype resource = Unallocated | Live | Destroyed

record 'c nodes_result =
  nr_table :: "'c sc_hash option"
  nr_num_nodes :: "int option"
  nr_mempool :: resource
  nr_hash :: resource
  nr_fp :: stream

text \<open>
  The loop \<^verbatim>\<open>for (ln = 0; ln < *num_nodes; ln++)\<close>, by the number of lines that are still
  to read. \<open>dbg\<close> says whether \<^verbatim>\<open>T8_ASSERT\<close> checks its condition (a debugging build)
  or is empty. The table of the result is \<open>None\<close> after \<^verbatim>\<open>goto die_node\<close>.
\<close>

fun read_node_lines ::
  "'c scanf \<Rightarrow> bool \<Rightarrow> nat \<Rightarrow> string option \<Rightarrow> stream \<Rightarrow> 'c sc_hash \<Rightarrow>
   crash + ('c sc_hash option \<times> stream)" where
  "read_node_lines sc dbg 0 line fp node_table = Inr (Some node_table, fp)"
| "read_node_lines sc dbg (Suc k) line fp node_table =
     (case t8_cmesh_msh_read_next_line line fp of
        (ok, line', fp') \<Rightarrow>
          if \<not> ok then Inr (None, fp')
          else (case line' of
             None \<Rightarrow> Inl Uninit_Read
           | Some l \<Rightarrow>
               (case sscanf_node sc l of
                  None \<Rightarrow> Inr (None, fp')
                | Some (idx, xyz) \<Rightarrow>
                    let Node = \<lparr>index = locidx_of_long idx, coordinates = xyz\<rparr> in
                    if dbg \<and> index Node \<noteq> idx then Inl Assertion_Failed
                    else (case sc_hash_insert_unique node_table Node of
                       Inl c \<Rightarrow> Inl c
                     | Inr (retval, node_table') \<Rightarrow>
                         if dbg \<and> \<not> retval then Inl Assertion_Failed
                         else read_node_lines sc dbg k line' fp' node_table'))))"

definition t8_msh_file_read_nodes ::
  "'c scanf \<Rightarrow> bool \<Rightarrow> stream \<Rightarrow> crash + 'c nodes_result" where
  "t8_msh_file_read_nodes sc dbg fp0 =
     (case find_section ''$Nodes'' [] None (fseek0 fp0) of
        Inl c \<Rightarrow> Inl c
      | Inr (False, line, fp) \<Rightarrow>
          Inr \<lparr>nr_table = None, nr_num_nodes = None, nr_mempool = Unallocated,
               nr_hash = Unallocated, nr_fp = fp\<rparr>
      | Inr (True, line, fp) \<Rightarrow>
          (case t8_cmesh_msh_read_next_line line fp of
             (ok, line', fp') \<Rightarrow>
               (case line' of
                  None \<Rightarrow> Inl Uninit_Read
                | Some l \<Rightarrow>
                    (case scan_long sc l of
                       None \<Rightarrow>
                         Inr \<lparr>nr_table = None, nr_num_nodes = None, nr_mempool = Unallocated,
                              nr_hash = Unallocated, nr_fp = fp'\<rparr>
                     | Some (lnum_nodes, r) \<Rightarrow>
                         let num_nodes = locidx_of_long lnum_nodes in
                         if dbg \<and> num_nodes \<noteq> lnum_nodes then Inl Assertion_Failed
                         else (case read_node_lines sc dbg (nat num_nodes) line' fp'
                                      (sc_hash_new num_nodes) of
                            Inl c \<Rightarrow> Inl c
                          | Inr (None, fp'') \<Rightarrow>
                              Inr \<lparr>nr_table = None, nr_num_nodes = Some num_nodes,
                                   nr_mempool = Destroyed, nr_hash = Destroyed, nr_fp = fp''\<rparr>
                          | Inr (Some node_table, fp'') \<Rightarrow>
                              Inr \<lparr>nr_table = Some node_table, nr_num_nodes = Some num_nodes,
                                   nr_mempool = Live, nr_hash = Live, nr_fp = fp''\<rparr>)))))"

subsection \<open>The coarse mesh\<close>

text \<open>
  Modelled from the spec: the container of the coarse mesh (\<^verbatim>\<open>t8_cmesh.c\<close>, which the
  reader only calls), at its interface: \<^verbatim>\<open>t8_cmesh_set_tree_class\<close> registers the class
  of a tree under its identifier, \<^verbatim>\<open>t8_cmesh_set_tree_vertices\<close> attaches the first
  \<open>3 * num_vertices\<close> entries of the coordinate array to it, \<^verbatim>\<open>t8_cmesh_commit\<close>
  finalizes the container and \<^verbatim>\<open>t8_cmesh_destroy\<close> releases it. An entry of a coordinate
  array is \<open>None\<close> while it is uninitialised memory. The dimension of the container is
  unset (\<open>- 1\<close>) until its first tree is registered.
\<close>

record 'c cmesh =
  cm_dimension :: int
  cm_classes :: "(int \<times> t8_eclass) list"
  cm_vertices :: "(int \<times> 'c option list) list"
  cm_committed :: bool

definition t8_cmesh_init :: "'c cmesh" where
  "t8_cmesh_init = \<lparr>cm_dimension = - 1, cm_classes = [], cm_vertices = [], cm_committed = False\<rparr>"

definition t8_cmesh_set_tree_class :: "'c cmesh \<Rightarrow> int \<Rightarrow> t8_eclass \<Rightarrow> 'c cmesh" where
  "t8_cmesh_set_tree_class cmesh tree_id tree_class =
     cmesh\<lparr>cm_dimension :=
              (if cm_dimension cmesh = - 1 then t8_eclass_to_dimension tree_class
               else cm_dimension cmesh),
           cm_classes := cm_classes cmesh @ [(tree_id, tree_class)]\<rparr>"

definition t8_cmesh_set_tree_vertices ::
  "'c cmesh \<Rightarrow> int \<Rightarrow> 'c option list \<Rightarrow> nat \<Rightarrow> 'c cmesh" where
  "t8_cmesh_set_tree_vertices cmesh tree_id vertices num_vertices =
     cmesh\<lparr>cm_vertices := cm_vertices cmesh @ [(tree_id, take (3 * num_vertices) vertices)]\<rparr>"

definition t8_cmesh_commit :: "'c cmesh \<Rightarrow> 'c cmesh" where
  "t8_cmesh_commit cmesh = cmesh\<lparr>cm_committed := True\<rparr>"

subsection \<open>Reading the elements\<close>

text \<open>
  The variables of \<^verbatim>\<open>t8_cmesh_msh_file_read_eles\<close> that live across the iterations of
  its loop over the elements. \<open>None\<close> is a variable that was never assigned;
  \<^verbatim>\<open>found_node\<close> is given by the node that it points to.
\<close>

record 'c ele_state =
  es_line :: "string option"
  es_fp :: stream
  es_ele_type :: "int option"
  es_num_tags :: "int option"
  es_found_node :: "'c t8_msh_file_node_t option"
  es_tree_vertices :: "'c option list"
  es_tree_count :: int
  es_cmesh :: "'c cmesh"

definition INT_MAX :: int where
  "INT_MAX = 2147483647"

text \<open>
  The loop \<^verbatim>\<open>for (i = 0; i < 3 + num_tags; i++)\<close> over the words before the node
  indices, by the number of words that are still to skip. \<^verbatim>\<open>strcmp\<close> in the assertion
  reads \<^verbatim>\<open>line_modify\<close>, which is NULL (\<open>None\<close>) behind the last word.
\<close>

fun skip_words :: "bool \<Rightarrow> nat \<Rightarrow> string option \<Rightarrow> crash + string option" where
  "skip_words dbg 0 line_modify = Inr line_modify"
| "skip_words dbg (Suc k) line_modify =
     (if dbg \<and> line_modify = None then Inl Null_Deref
      else if dbg \<and> line_modify = Some [] then Inl Assertion_Failed
      else skip_words dbg k (strsep line_modify))"

text \<open>
  The loop that reads \<^verbatim>\<open>node_indices[0 .. num_nodes - 1]\<close>; \<open>Inr None\<close> is
  \<^verbatim>\<open>goto die_ele\<close>.
\<close>

fun read_node_indices ::
  "'c scanf \<Rightarrow> bool \<Rightarrow> nat \<Rightarrow> string option \<Rightarrow> crash + int list option" where
  "read_node_indices sc dbg 0 line_modify = Inr (Some [])"
| "read_node_indices sc dbg (Suc k) line_modify =
     (if dbg \<and> line_modify = None then Inl Null_Deref
      else if dbg \<and> line_modify = Some [] then Inl Assertion_Failed
      else (case line_modify of
         None \<Rightarrow> Inl Null_Deref
       | Some s \<Rightarrow>
           (case scan_long sc s of
              None \<Rightarrow> Inr None
            | Some (v, r) \<Rightarrow>
                (case read_node_indices sc dbg k (strsep line_modify) of
                   Inl c \<Rightarrow> Inl c
                 | Inr None \<Rightarrow> Inr None
                 | Inr (Some vs) \<Rightarrow> Inr (Some (v # vs))))))"

text \<open>
  The loop that looks the nodes up and fills \<^verbatim>\<open>double tree_vertices[24]\<close>, from the
  index \<open>i\<close> on. \<^verbatim>\<open>sc_hash_lookup\<close> assigns \<^verbatim>\<open>found_node\<close> only when it finds the
  node, and its return value is not read.
\<close>

fun fill_tree_vertices ::
  "'c sc_hash option \<Rightarrow> t8_eclass \<Rightarrow> nat \<Rightarrow> int list \<Rightarrow> 'c t8_msh_file_node_t option \<Rightarrow>
   'c option list \<Rightarrow> crash + ('c t8_msh_file_node_t option \<times> 'c option list)" where
  "fill_tree_vertices vertices eclass i [] found_node tree_vertices =
     Inr (found_node, tree_vertices)"
| "fill_tree_vertices vertices eclass i (node_index # rest) found_node tree_vertices =
     (case vertices of
        None \<Rightarrow> Inl Null_Deref
      | Some hash \<Rightarrow>
          (case sc_hash_lookup hash (locidx_of_long node_index) of
             Inl c \<Rightarrow> Inl c
           | Inr r \<Rightarrow>
               (case (case r of Some n \<Rightarrow> Some n | None \<Rightarrow> found_node) of
                  None \<Rightarrow> Inl Uninit_Read
                | Some n \<Rightarrow>
                    if length (t8_msh_element_vertex_to_t8_vertex_num eclass) \<le> i
                    then Inl Buffer_Overflow
                    else
                      let t8_vertex_num = t8_msh_element_vertex_to_t8_vertex_num eclass ! i in
                      if 24 < 3 * t8_vertex_num + 3 then Inl Buffer_Overflow
                      else fill_tree_vertices vertices eclass (Suc i) rest (Some n)
                        (tree_vertices
                          [3 * t8_vertex_num := Some (fst (coordinates n)),
                           3 * t8_vertex_num + 1 := Some (fst (snd (coordinates n))),
                           3 * t8_vertex_num + 2 := Some (snd (snd (coordinates n)))]))))"

text \<open>
  One iteration of the loop over the elements; \<open>Inr None\<close> is \<^verbatim>\<open>goto die_ele\<close>.
  \<^verbatim>\<open>strsep\<close> writes into the line buffer, which is not read again before the next
  \<^verbatim>\<open>getline\<close> fills it.
\<close>

definition read_element ::
  "'c scanf \<Rightarrow> bool \<Rightarrow> 'c sc_hash option \<Rightarrow> int \<Rightarrow> 'c ele_state \<Rightarrow>
   crash + 'c ele_state option" where
  "read_element sc dbg vertices dim st =
     (case t8_cmesh_msh_read_next_line (es_line st) (es_fp st) of
        (ok, line', fp') \<Rightarrow>
          if \<not> ok then Inr None
          else (case line' of
             None \<Rightarrow> Inl Uninit_Read
           | Some l \<Rightarrow>
               (case sscanf_header sc l (es_ele_type st) (es_num_tags st) of
                  (None, nt) \<Rightarrow> Inl Uninit_Read
                | (Some ele_type, nt) \<Rightarrow>
                    if ele_type > T8_NUM_GMSH_ELEM_CLASSES \<or> ele_type < 0
                       \<or> t8_msh_element_type_to_eclass ! nat ele_type = T8_ECLASS_COUNT
                    then Inr None
                    else
                      let eclass = t8_msh_element_type_to_eclass ! nat ele_type;
                          st' = st\<lparr>es_line := line', es_fp := fp',
                                   es_ele_type := Some ele_type, es_num_tags := nt\<rparr>
                      in
                      if t8_eclass_to_dimension eclass = dim then
                        (case nt of
                           None \<Rightarrow> Inl Uninit_Read
                         | Some num_tags \<Rightarrow>
                             if INT_MAX < 3 + num_tags then Inl Signed_Overflow
                             else (case skip_words dbg (nat (3 + num_tags)) line' of
                                Inl c \<Rightarrow> Inl c
                              | Inr line_modify \<Rightarrow>
                                  let num_nodes = t8_eclass_num_vertices eclass in
                                  (case read_node_indices sc dbg num_nodes line_modify of
                                     Inl c \<Rightarrow> Inl c
                                   | Inr None \<Rightarrow> Inr None
                                   | Inr (Some node_indices) \<Rightarrow>
                                       (case fill_tree_vertices vertices eclass 0 node_indices
                                               (es_found_node st) (es_tree_vertices st) of
                                          Inl c \<Rightarrow> Inl c
                                        | Inr (found_node, tree_vertices) \<Rightarrow>
                                            Inr (Some (st'\<lparr>
                                              es_found_node := found_node,
                                              es_tree_vertices := tree_vertices,
                                              es_cmesh :=
                                                t8_cmesh_set_tree_vertices
                                                  (t8_cmesh_set_tree_class (es_cmesh st)
                                                     (es_tree_count st) eclass)
                                                  (es_tree_count st) tree_vertices num_nodes,
                                              es_tree_count := es_tree_count st + 1\<rparr>))))))
                      else Inr (Some st'))))"

text \<open>
  The loop \<^verbatim>\<open>for (element_count = 0; element_count < num_elements; element_count++)\<close>,
  by the number of elements that are still to read.
\<close>

fun read_elements ::
  "'c scanf \<Rightarrow> bool \<Rightarrow> 'c sc_hash option \<Rightarrow> int \<Rightarrow> nat \<Rightarrow> 'c ele_state \<Rightarrow>
   crash + 'c ele_state option" where
  "read_elements sc dbg vertices dim 0 st = Inr (Some st)"
| "read_elements sc dbg vertices dim (Suc k) st =
     (case read_element sc dbg vertices dim st of
        Inl c \<Rightarrow> Inl c
      | Inr None \<Rightarrow> Inr None
      | Inr (Some st') \<Rightarrow> read_elements sc dbg vertices dim k st')"

text \<open>
  The result of \<^verbatim>\<open>t8_cmesh_msh_file_read_eles\<close>: its return value and the container that
  the caller's pointer points to, \<open>None\<close> once \<^verbatim>\<open>t8_cmesh_destroy\<close> has released it
  (the function destroys through its own copy of the pointer, that of the caller keeps
  its value).
\<close>

record 'c eles_result =
  er_retval :: int
  er_cmesh :: "'c cmesh option"
  er_fp :: stream

definition t8_cmesh_msh_file_read_eles ::
  "'c scanf \<Rightarrow> bool \<Rightarrow> 'c cmesh \<Rightarrow> stream \<Rightarrow> 'c sc_hash option \<Rightarrow> int \<Rightarrow>
   crash + 'c eles_result" where
  "t8_cmesh_msh_file_read_eles sc dbg cmesh fp0 vertices dim =
     (case find_section ''$Elements'' [] None fp0 of
        Inl c \<Rightarrow> Inl c
      | Inr (False, line, fp) \<Rightarrow> Inr \<lparr>er_retval = - 1, er_cmesh = None, er_fp = fp\<rparr>
      | Inr (True, line, fp) \<Rightarrow>
          (case t8_cmesh_msh_read_next_line line fp of
             (ok, line', fp') \<Rightarrow>
               (case line' of
                  None \<Rightarrow> Inl Uninit_Read
                | Some l \<Rightarrow>
                    (case scan_long sc l of
                       None \<Rightarrow> Inr \<lparr>er_retval = - 1, er_cmesh = None, er_fp = fp'\<rparr>
                     | Some (lnum_elements, r) \<Rightarrow>
                         let num_elements = locidx_of_long lnum_elements in
                         if dbg \<and> num_elements \<noteq> lnum_elements then Inl Assertion_Failed
                         else (case read_elements sc dbg vertices dim (nat num_elements)
                                 \<lparr>es_line = line', es_fp = fp', es_ele_type = None,
                                  es_num_tags = None, es_found_node = None,
                                  es_tree_vertices = replicate 24 None,
                                  es_tree_count = 0, es_cmesh = cmesh\<rparr> of
                            Inl c \<Rightarrow> Inl c
                          | Inr None \<Rightarrow>
                              Inr \<lparr>er_retval = - 1, er_cmesh = None, er_fp = fp'\<rparr>
                          | Inr (Some st) \<Rightarrow>
                              Inr \<lparr>er_retval = 0, er_cmesh = Some (es_cmesh st),
                                   er_fp = es_fp st\<rparr>)))))"

subsection \<open>The entry point\<close>

text \<open>
  \<^verbatim>\<open>t8_cmesh_from_msh_file\<close>; the file is \<open>None\<close> when it cannot be opened. The result
  \<open>Inr None\<close> is the return value NULL. The return value of
  \<^verbatim>\<open>t8_cmesh_msh_file_read_eles\<close> is not read, and \<^verbatim>\<open>cmesh\<close> is never NULL behind
  \<^verbatim>\<open>t8_cmesh_init\<close>.
\<close>

definition t8_cmesh_from_msh_file ::
  "'c scanf \<Rightarrow> bool \<Rightarrow> string option \<Rightarrow> int \<Rightarrow> int \<Rightarrow> crash + 'c cmesh option" where
  "t8_cmesh_from_msh_file sc dbg file partition_arg dim =
     (if dbg \<and> partition_arg \<noteq> 0 then Inl Assertion_Failed
      else (case file of
         None \<Rightarrow> Inr None
       | Some bytes \<Rightarrow>
           (case t8_msh_file_read_nodes sc dbg (fopen bytes) of
              Inl c \<Rightarrow> Inl c
            | Inr nodes \<Rightarrow>
                (case t8_cmesh_msh_file_read_eles sc dbg t8_cmesh_init (nr_fp nodes)
                        (nr_table nodes) dim of
                   Inl c \<Rightarrow> Inl c
                 | Inr eles \<Rightarrow>
                     (case nr_mempool nodes of
                        Unallocated \<Rightarrow> Inl Null_Deref
                      | Destroyed \<Rightarrow> Inl Double_Free
                      | Live \<Rightarrow>
                          (case er_cmesh eles of
                             None \<Rightarrow> Inl Use_After_Free
                           | Some cmesh \<Rightarrow>
                               if dbg \<and> cm_dimension cmesh \<noteq> dim then Inl Assertion_Failed
                               else Inr (Some (t8_cmesh_commit cmesh))))))))"

subsection \<open>Conversions of decimal numerals\<close>

text \<open>
  An instance of the conversions, to run the reader on given files: the conversion of a
  decimal numeral with an optional sign, as \<^verbatim>\<open>%li\<close> and \<^verbatim>\<open>%i\<close> convert it when it has
  no leading zero and fits the type, and as \<^verbatim>\<open>%lf\<close> converts it when it is a whole number
  that a \<^verbatim>\<open>double\<close> holds. A coordinate is then an integer.
\<close>

definition is_digit :: "char \<Rightarrow> bool" where
  "is_digit c = (c \<in> set ''0123456789'')"

definition digit_val :: "char \<Rightarrow> int" where
  "digit_val c = int (of_char c) - 48"

definition scan_decimal :: "string \<Rightarrow> (int \<times> string) option" where
  "scan_decimal input =
     (let s = dropWhile isspace input;
          neg = (s \<noteq> [] \<and> hd s = CHR ''-'');
          s1 = (if s \<noteq> [] \<and> (hd s = CHR ''-'' \<or> hd s = CHR ''+'') then tl s else s);
          ds = takeWhile is_digit s1;
          v = foldl (\<lambda>a c. 10 * a + digit_val c) 0 ds
      in if ds = [] then None
         else Some (if neg then - v else v, dropWhile is_digit s1))"

definition decimal_scanf :: "int scanf" where
  "decimal_scanf =
     \<lparr>scan_long = scan_decimal, scan_int = scan_decimal, scan_double = scan_decimal\<rparr>"

subsection \<open>The lines that the line reader returns\<close>

text \<open>
  The lines of a stream that are neither comments nor blank, as C strings: these are the
  lines that \<^const>\<open>t8_cmesh_msh_read_next_line\<close> returns, one after the other.
\<close>

definition significant :: "string list \<Rightarrow> string list" where
  "significant ls = filter (\<lambda>l. \<not> comment_or_blank l) (map c_str ls)"

subsection \<open>What the reader reads from an element line\<close>

text \<open>
  The steps of \<^const>\<open>read_element\<close>, run on one line alone and from fresh variables:
  the class of the type code that \<^verbatim>\<open>sscanf\<close> converts from the line, when the check
  of the reader lets the code pass, and the node indices that the loops over
  \<^verbatim>\<open>strsep\<close> and \<^verbatim>\<open>sscanf\<close> read from the line (\<open>None\<close> when a loop stops or
  does not return), in a build with (\<open>dbg\<close>) or without assertions. These say what the
  reader does with a line, not what the line lists: that is the subject of the next
  subsection.
\<close>

definition scanned_eclass :: "'c scanf \<Rightarrow> string \<Rightarrow> t8_eclass option" where
  "scanned_eclass sc l =
     (case sscanf_header sc l None None of
        (None, nt) \<Rightarrow> None
      | (Some t, nt) \<Rightarrow>
          if 0 \<le> t \<and> t \<le> T8_NUM_GMSH_ELEM_CLASSES
             \<and> t8_msh_element_type_to_eclass ! nat t \<noteq> T8_ECLASS_COUNT
          then Some (t8_msh_element_type_to_eclass ! nat t) else None)"

definition scanned_node_indices :: "'c scanf \<Rightarrow> bool \<Rightarrow> string \<Rightarrow> int list option" where
  "scanned_node_indices sc dbg l =
     (case (sscanf_header sc l None None, scanned_eclass sc l) of
        ((Some t, Some k), Some c) \<Rightarrow>
          if INT_MAX < 3 + k then None
          else (case skip_words dbg (nat (3 + k)) (Some l) of
             Inl e \<Rightarrow> None
           | Inr line_modify \<Rightarrow>
               (case read_node_indices sc dbg (t8_eclass_num_vertices c) line_modify of
                  Inr (Some node_indices) \<Rightarrow> Some node_indices
                | _ \<Rightarrow> None))
      | _ \<Rightarrow> None)"

text \<open>A node index is declared in a node table when the lookup of the table finds it.\<close>

definition declared :: "'c sc_hash \<Rightarrow> int \<Rightarrow> bool" where
  "declared hash node_index =
     (case sc_hash_lookup hash (locidx_of_long node_index) of
        Inr (Some n) \<Rightarrow> True
      | _ \<Rightarrow> False)"





subsection \<open>Element lines, as the format describes them\<close>

text \<open>
  These definitions follow the words of the description of the format (an element line
  holds integer fields, all delimited by white space on one line), not the code of the
  reader: of the reader they use the tables of the registry and the node table, and none
  of its loops. The fields of a line are its maximal runs of characters other than white
  space: the first of them, and the fields of what stands behind it.
\<close>

definition first_field :: "string \<Rightarrow> string" where
  "first_field s = takeWhile (\<lambda>c. \<not> isspace c) (dropWhile isspace s)"

definition behind_field :: "string \<Rightarrow> string" where
  "behind_field s = dropWhile (\<lambda>c. \<not> isspace c) (dropWhile isspace s)"

lemma behind_field_shorter: "first_field s \<noteq> [] \<Longrightarrow> length (behind_field s) < length s"
proof -
  assume a: "first_field s \<noteq> []"
  have "length (takeWhile (\<lambda>c. \<not> isspace c) (dropWhile isspace s))
      + length (dropWhile (\<lambda>c. \<not> isspace c) (dropWhile isspace s)) = length (dropWhile isspace s)"
    by (simp flip: length_append)
  moreover have "length (dropWhile isspace s) \<le> length s"
    by (rule length_dropWhile_le)
  moreover from a have "0 < length (takeWhile (\<lambda>c. \<not> isspace c) (dropWhile isspace s))"
    by (simp add: first_field_def)
  ultimately show ?thesis
    unfolding behind_field_def by linarith
qed

function fields :: "string \<Rightarrow> string list" where
  "fields s = (if first_field s = [] then [] else first_field s # fields (behind_field s))"
  by pat_completeness auto
termination
  by (relation "measure length") (simp_all add: behind_field_shorter)

declare fields.simps [simp del]

text \<open>
  A field is an integer when the conversion, given the field alone, converts all of it.
  An element line is in order when its fields are integers: the element number, a type
  code that has a class in the registry, the number \<open>t\<close> of tags, which is not negative,
  \<open>t\<close> tags, and then exactly as many node indices as the class has vertices. For such a
  line \<open>element_line\<close> gives the class and the node indices that the line lists, in the
  order of the line; \<open>element_class\<close> is the class alone. The line is of a dimension
  when its class is, and it is well formed for a node table when the table declares the
  node indices that it lists.
\<close>

definition integer_field :: "(string \<Rightarrow> (int \<times> string) option) \<Rightarrow> string \<Rightarrow> int option" where
  "integer_field conv w = (case conv w of Some (v, []) \<Rightarrow> Some v | _ \<Rightarrow> None)"

definition element_line :: "'c scanf \<Rightarrow> string \<Rightarrow> (t8_eclass \<times> int list) option" where
  "element_line sc l =
     (case fields l of
        number # type_code # tag_count # others \<Rightarrow>
          (case (integer_field (scan_int sc) number, integer_field (scan_int sc) type_code,
                 integer_field (scan_int sc) tag_count) of
             (Some n, Some t, Some k) \<Rightarrow>
               if 0 \<le> t \<and> t \<le> T8_NUM_GMSH_ELEM_CLASSES
                  \<and> t8_msh_element_type_to_eclass ! nat t \<noteq> T8_ECLASS_COUNT \<and> 0 \<le> k
                  \<and> length others
                      = nat k + t8_eclass_num_vertices (t8_msh_element_type_to_eclass ! nat t)
                  \<and> list_all (\<lambda>w. integer_field (scan_int sc) w \<noteq> None) (take (nat k) others)
                  \<and> list_all (\<lambda>w. integer_field (scan_long sc) w \<noteq> None) (drop (nat k) others)
               then Some (t8_msh_element_type_to_eclass ! nat t,
                          map (\<lambda>w. the (integer_field (scan_long sc) w)) (drop (nat k) others))
               else None
           | _ \<Rightarrow> None)
      | _ \<Rightarrow> None)"




text \<open>
  The fields of a line are separated by single blanks when the line begins with its
  first field, one blank and nothing else stands between a field and the next, and only
  white space follows the last field.
\<close>

fun join :: "string list \<Rightarrow> string" where
  "join [] = []"
| "join [w] = w"
| "join (w # v # ws) = w @ CHR '' '' # join (v # ws)"

definition blank_separated :: "string \<Rightarrow> bool" where
  "blank_separated l =
     (let j = join (fields l) in take (length j) l = j \<and> list_all isspace (drop (length j) l))"

text \<open>
  A numeric conversion of the C library skips white space and reads from the word that
  follows, never behind it: what it gives for an input is what it gives for the first
  word of the input, with the rest of the input behind what it left of the word.
\<close>

definition word_conversion :: "(string \<Rightarrow> ('v \<times> string) option) \<Rightarrow> bool" where
  "word_conversion conv \<longleftrightarrow>
     (\<forall>s. conv s = map_option (\<lambda>(v, r). (v, r @ behind_field s)) (conv (first_field s)))"

subsection \<open>Node lines and node tables\<close>

text \<open>
  The indices of the nodes of a table, the index that a node line declares, and the
  tables whose every entry is stored under the hash value of its index.
\<close>

definition table_indices :: "'c sc_hash \<Rightarrow> int set" where
  "table_indices hash = (\<lambda>e. index (snd e)) ` set (entries hash)"

definition line_node_index :: "'c scanf \<Rightarrow> string \<Rightarrow> int" where
  "line_node_index sc l = (case sscanf_node sc l of Some (i, xyz) \<Rightarrow> i | None \<Rightarrow> 0)"

definition hashed_by_index :: "'c sc_hash \<Rightarrow> bool" where
  "hashed_by_index hash =
     list_all (\<lambda>(h, n). t8_msh_file_node_hash (index n) (user_data hash) = Inr h) (entries hash)"

subsection \<open>Example tables and files\<close>

text \<open>
  Files in the format of the reader, the node tables that the reader builds from them
  and the meshes that it returns for them, for the runs of the reader below. The
  coordinates are whole numbers for \<^const>\<open>decimal_scanf\<close>.
\<close>

definition example_table :: "int sc_hash" where
  "example_table =
     \<lparr>user_data = 4,
      entries = [(1, \<lparr>index = 1, coordinates = (0, 0, 0)\<rparr>),
                 (2, \<lparr>index = 2, coordinates = (1, 0, 0)\<rparr>),
                 (3, \<lparr>index = 3, coordinates = (1, 1, 0)\<rparr>),
                 (0, \<lparr>index = 4, coordinates = (0, 1, 0)\<rparr>)]\<rparr>"

definition msh_quad :: string where
  "msh_quad =
     concat
       [''$Nodes\<newline>'', ''4\<newline>'', ''1 0 0 0\<newline>'', ''2 1 0 0\<newline>'', ''3 1 1 0\<newline>'', ''4 0 1 0\<newline>'',
        ''$EndNodes\<newline>'', ''$Elements\<newline>'', ''1\<newline>'', ''1 3 0 1 2 3 4\<newline>'', ''$EndElements\<newline>'']"

definition msh_quad_mesh :: "int cmesh" where
  "msh_quad_mesh =
     \<lparr>cm_dimension = 2, cm_classes = [(0, T8_ECLASS_QUAD)],
      cm_vertices = [(0, [Some 0, Some 0, Some 0, Some 1, Some 0, Some 0,
                          Some 0, Some 1, Some 0, Some 1, Some 1, Some 0])],
      cm_committed = True\<rparr>"

definition msh_line_triangle :: string where
  "msh_line_triangle =
     concat
       [''$MeshFormat\<newline>'', ''2.2 0 8\<newline>'', ''$EndMeshFormat\<newline>'', ''$Nodes\<newline>'',
        ''# three nodes\<newline>'', ''3\<newline>'', ''1 0 0 0\<newline>'', ''2 1 0 0\<newline>'', ''3 0 1 0\<newline>'',
        ''$EndNodes\<newline>'', ''$Elements\<newline>'', ''2\<newline>'', ''1 1 0 1 2\<newline>'', ''\<newline>'', ''2 2 0 1 2 3\<newline>'',
        ''$EndElements\<newline>'']"

definition triangle_table :: "int sc_hash" where
  "triangle_table =
     \<lparr>user_data = 3,
      entries = [(1, \<lparr>index = 1, coordinates = (0, 0, 0)\<rparr>),
                 (2, \<lparr>index = 2, coordinates = (1, 0, 0)\<rparr>),
                 (0, \<lparr>index = 3, coordinates = (0, 1, 0)\<rparr>)]\<rparr>"



definition quad_line :: string where
  "quad_line = ''1 3 0 1 2 3 4\<newline>''"

definition quad_state :: "int ele_state" where
  "quad_state =
     \<lparr>es_line = None, es_fp = \<lparr>contents = [quad_line], unread = [quad_line], eof = False\<rparr>,
      es_ele_type = None, es_num_tags = None, es_found_node = None,
      es_tree_vertices = replicate 24 None, es_tree_count = 0, es_cmesh = t8_cmesh_init\<rparr>"

definition msh_nodes_head :: "string list" where
  "msh_nodes_head =
     [''$Nodes\<newline>'', ''3\<newline>'', ''1 0 0 0\<newline>'', ''2 1 0 0\<newline>'', ''3 0 1 0\<newline>'', ''$EndNodes\<newline>'']"


definition msh_second_order :: string where
  "msh_second_order = concat msh_nodes_head @
     concat
       [''$Elements\<newline>'', ''2\<newline>'', ''1 2 0 1 2 3\<newline>'', ''2 8 0 1 2 3\<newline>'', ''$EndElements\<newline>'']"


definition point_mesh :: "int cmesh" where
  "point_mesh =
     \<lparr>cm_dimension = 0, cm_classes = [(0, T8_ECLASS_VERTEX)],
      cm_vertices = [(0, [Some 0, Some 0, Some 0])],
      cm_committed = True\<rparr>"

definition msh_five_fields :: string where
  "msh_five_fields =
     concat
       [''$Nodes\<newline>'', ''1\<newline>'', ''1 0 0 0 9\<newline>'', ''$EndNodes\<newline>'']"

definition msh_short_node :: string where
  "msh_short_node =
     concat
       [''$Nodes\<newline>'', ''3\<newline>'', ''1 0 0 0\<newline>'', ''2 1 0\<newline>'', ''3 0 1 0\<newline>'', ''$EndNodes\<newline>'']"

definition msh_missing_nodes :: string where
  "msh_missing_nodes =
     concat
       [''$Nodes\<newline>'', ''3\<newline>'', ''1 0 0 0\<newline>'']"

definition msh_negative_count :: string where
  "msh_negative_count =
     concat
       [''$Nodes\<newline>'', ''-5\<newline>'', ''$EndNodes\<newline>'']"

definition msh_bad_count :: string where
  "msh_bad_count =
     concat
       [''$Nodes\<newline>'', ''three\<newline>'', ''1 0 0 0\<newline>'']"

definition msh_zero_nodes :: string where
  "msh_zero_nodes =
     concat
       [''$Nodes\<newline>'', ''0\<newline>'', ''$EndNodes\<newline>'', ''$Elements\<newline>'', ''1\<newline>'', ''1 2 0 1 2 3\<newline>'',
        ''$EndElements\<newline>'']"

definition msh_duplicate :: string where
  "msh_duplicate =
     concat
       [''$Nodes\<newline>'', ''2\<newline>'', ''1 0 0 0\<newline>'', ''1 5 5 5\<newline>'', ''$EndNodes\<newline>'', ''$Elements\<newline>'',
        ''1\<newline>'', ''1 15 0 1\<newline>'', ''$EndElements\<newline>'']"

definition msh_undeclared :: string where
  "msh_undeclared = concat msh_nodes_head @
     concat
       [''$Elements\<newline>'', ''1\<newline>'', ''1 2 0 1 2 4\<newline>'', ''$EndElements\<newline>'']"

definition msh_undeclared_first :: string where
  "msh_undeclared_first = concat msh_nodes_head @
     concat
       [''$Elements\<newline>'', ''1\<newline>'', ''1 2 0 4 1 2\<newline>'', ''$EndElements\<newline>'']"

definition undeclared_mesh :: "int cmesh" where
  "undeclared_mesh =
     \<lparr>cm_dimension = 2, cm_classes = [(0, T8_ECLASS_TRIANGLE)],
      cm_vertices = [(0, [Some 0, Some 0, Some 0, Some 1, Some 0, Some 0,
                          Some 1, Some 0, Some 0])],
      cm_committed = True\<rparr>"



definition double_blank_line :: string where
  "double_blank_line = ''1 2 0  1 2 3\<newline>''"

definition msh_double_blank :: string where
  "msh_double_blank = concat msh_nodes_head @
     concat
       [''$Elements\<newline>'', ''1\<newline>'', double_blank_line, ''$EndElements\<newline>'']"

definition double_blank_mesh :: "int cmesh" where
  "double_blank_mesh =
     \<lparr>cm_dimension = 2, cm_classes = [(0, T8_ECLASS_TRIANGLE)],
      cm_vertices = [(0, [Some 0, Some 0, Some 0, Some 0, Some 0, Some 0,
                          Some 1, Some 0, Some 0])],
      cm_committed = True\<rparr>"

definition msh_duplicate_short :: string where
  "msh_duplicate_short =
     concat
       [''$Nodes\<newline>'', ''3\<newline>'', ''1 0 0 0\<newline>'', ''1 5 5 5\<newline>'', ''2 1 0\<newline>'']"

section \<open>Properties\<close>

subsection \<open>The line reader\<close>

lemma read_next_line_significant:
  "significant (unread fp) = l # ls \<Longrightarrow>
   \<exists>fp'. t8_cmesh_msh_read_next_line line fp = (True, Some l, fp') \<and>
     significant (unread fp') = ls"
proof (induction line fp rule: t8_cmesh_msh_read_next_line.induct)
  case (1 line fp)
  from "1.prems" obtain r rs where u: "unread fp = r # rs"
    by (cases "unread fp") (auto simp: significant_def)
  let ?fp = "fp\<lparr>unread := rs, eof := (eof fp \<or> \<not> terminated r)\<rparr>"
  have g: "getline fp = (Some r, ?fp)"
    using u by (simp add: getline_def)
  show ?case
  proof (cases "comment_or_blank (c_str r)")
    case True
    with "1.prems" u have "significant (unread ?fp) = l # ls"
      by (simp add: significant_def)
    from "1.IH" [OF g [symmetric] refl True this] g True show ?thesis
      by (simp add: t8_cmesh_msh_read_next_line.simps [of line fp])
  next
    case False
    with "1.prems" u g show ?thesis
      by (simp add: t8_cmesh_msh_read_next_line.simps [of line fp] significant_def)
  qed
qed

lemma read_next_line_no_significant:
  "significant (unread fp) = [] \<Longrightarrow> fst (t8_cmesh_msh_read_next_line line fp) = False"
proof (induction line fp rule: t8_cmesh_msh_read_next_line.induct)
  case (1 line fp)
  show ?case
  proof (cases "unread fp")
    case Nil
    then show ?thesis
      by (simp add: t8_cmesh_msh_read_next_line.simps [of line fp] getline_def)
  next
    case (Cons r rs)
    let ?fp = "fp\<lparr>unread := rs, eof := (eof fp \<or> \<not> terminated r)\<rparr>"
    have g: "getline fp = (Some r, ?fp)"
      using Cons by (simp add: getline_def)
    from "1.prems" Cons have cb: "comment_or_blank (c_str r)" and "significant (unread ?fp) = []"
      by (auto simp: significant_def split: if_splits)
    from "1.IH" [OF g [symmetric] refl cb this(2)] g cb show ?thesis
      by (simp add: t8_cmesh_msh_read_next_line.simps [of line fp])
  qed
qed

subsection \<open>The vertex permutation and the loop that fills the vertices of a tree\<close>

lemma perm_distinct:
  "distinct (take (t8_eclass_num_vertices c) (t8_msh_element_vertex_to_t8_vertex_num c))"
  by (cases c) (simp_all add: numeral_eq_Suc)

lemma perm_set:
  "c \<noteq> T8_ECLASS_COUNT \<Longrightarrow> set (take (t8_eclass_num_vertices c)
      (t8_msh_element_vertex_to_t8_vertex_num c)) = {..<t8_eclass_num_vertices c}"
  apply (cases c) apply (simp_all add: numeral_eq_Suc lessThan_Suc)
  apply auto
  done

lemma fill_step:
  assumes "fill_tree_vertices vertices c i (x # xs) found tv = Inr (found', tv')"
  obtains hash r n where "vertices = Some hash"
    and "sc_hash_lookup hash (locidx_of_long x) = Inr r"
    and "(case r of Some m \<Rightarrow> Some m | None \<Rightarrow> found) = Some n"
    and "i < length (t8_msh_element_vertex_to_t8_vertex_num c)" and "3 *
        (t8_msh_element_vertex_to_t8_vertex_num c ! i) + 3 \<le> 24"
    and "fill_tree_vertices vertices c (Suc i) xs (Some n)
           (tv[3 * (t8_msh_element_vertex_to_t8_vertex_num c ! i) := Some (fst (coordinates n)),
               3 * (t8_msh_element_vertex_to_t8_vertex_num c ! i) + 1 := Some (fst (snd
                   (coordinates n))),
               3 * (t8_msh_element_vertex_to_t8_vertex_num c ! i) + 2 := Some (snd (snd
                   (coordinates n)))]) = Inr (found', tv')"
  using assms
  by (auto simp: Let_def split: option.splits sum.splits if_splits)

lemma fill_length:
  fixes tv :: "'a option list"
  shows "fill_tree_vertices vertices c i xs found tv = Inr (found', tv') \<Longrightarrow> length tv' = length tv"
proof (induction xs arbitrary: i found tv)
  case Nil
  then show ?case by simp
next
  case (Cons x xs)
  from Cons.prems show ?case
  proof (rule fill_step)
    fix tv2 :: "'a option list" and n :: "'a t8_msh_file_node_t"
    assume "fill_tree_vertices vertices c (Suc i) xs (Some n)
           (tv[3 * (t8_msh_element_vertex_to_t8_vertex_num c ! i) := Some (fst (coordinates n)),
               3 * (t8_msh_element_vertex_to_t8_vertex_num c ! i) + 1 := Some (fst (snd
                   (coordinates n))),
               3 * (t8_msh_element_vertex_to_t8_vertex_num c ! i) + 2 := Some (snd (snd
                   (coordinates n)))]) = Inr (found', tv')"
    from Cons.IH [OF this] show ?thesis by simp
  qed
qed

lemma fill_other:
  fixes tv :: "'a option list"
  shows "fill_tree_vertices vertices c i xs found tv = Inr (found', tv') \<Longrightarrow>
   \<forall>j<length xs. \<forall>d<3. k \<noteq> 3 * (t8_msh_element_vertex_to_t8_vertex_num c ! (i + j)) + d \<Longrightarrow> tv' ! k
       = tv ! k"
proof (induction xs arbitrary: i found tv)
  case Nil
  then show ?case by simp
next
  case (Cons x xs)
  from Cons.prems(1) show ?case
  proof (rule fill_step)
    fix n :: "'a t8_msh_file_node_t"
    assume rec: "fill_tree_vertices vertices c (Suc i) xs (Some n)
           (tv[3 * (t8_msh_element_vertex_to_t8_vertex_num c ! i) := Some (fst (coordinates n)),
               3 * (t8_msh_element_vertex_to_t8_vertex_num c ! i) + 1 := Some (fst (snd
                   (coordinates n))),
               3 * (t8_msh_element_vertex_to_t8_vertex_num c ! i) + 2 := Some (snd (snd
                   (coordinates n)))]) = Inr (found', tv')"
    have later: "\<forall>j<length xs. \<forall>d<3. k \<noteq> 3 * (t8_msh_element_vertex_to_t8_vertex_num c ! (Suc i +
        j)) + d"
      using Cons.prems(2) by fastforce
    have here: "k \<noteq> 3 * (t8_msh_element_vertex_to_t8_vertex_num c ! i)" "k \<noteq> 3 *
        (t8_msh_element_vertex_to_t8_vertex_num c ! i) + 1" "k \<noteq> 3 *
        (t8_msh_element_vertex_to_t8_vertex_num c ! i) + 2"
      using Cons.prems(2) [rule_format, of 0 0] Cons.prems(2) [rule_format, of 0 1]
        Cons.prems(2) [rule_format, of 0 2] by simp_all
    from Cons.IH [OF rec later] here show ?thesis
      by simp
  qed
qed

lemma fill_value:
  fixes tv :: "'a option list"
  shows "fill_tree_vertices (Some hash) c i xs found tv = Inr (found', tv') \<Longrightarrow>
   length tv = 24 \<Longrightarrow>
   inj_on (\<lambda>j. t8_msh_element_vertex_to_t8_vertex_num c ! j) {i..<i + length xs} \<Longrightarrow>
   j < length xs \<Longrightarrow>
   sc_hash_lookup hash (locidx_of_long (xs ! j)) = Inr (Some n) \<Longrightarrow>
   tv' ! (3 * (t8_msh_element_vertex_to_t8_vertex_num c ! (i + j))) = Some (fst (coordinates n)) \<and>
   tv' ! (3 * (t8_msh_element_vertex_to_t8_vertex_num c ! (i + j)) + 1)
       = Some (fst (snd (coordinates n))) \<and>
   tv' ! (3 * (t8_msh_element_vertex_to_t8_vertex_num c ! (i + j)) + 2)
       = Some (snd (snd (coordinates n)))"
proof (induction xs arbitrary: i j found tv)
  case Nil
  then show ?case by simp
next
  case (Cons x xs)
  from Cons.prems(1) show ?case
  proof (rule fill_step)
    fix h r and m :: "'a t8_msh_file_node_t"
    let ?tv = "tv[3 * (t8_msh_element_vertex_to_t8_vertex_num c ! i) := Some (fst (coordinates m)),
               3 * (t8_msh_element_vertex_to_t8_vertex_num c ! i) + 1 := Some (fst (snd
                   (coordinates m))),
               3 * (t8_msh_element_vertex_to_t8_vertex_num c ! i) + 2 := Some (snd (snd
                   (coordinates m)))]"
    assume h: "Some hash = Some h"
      and r: "sc_hash_lookup h (locidx_of_long x) = Inr r"
      and m: "(case r of Some m \<Rightarrow> Some m | None \<Rightarrow> found) = Some m"
      and bound: "3 * (t8_msh_element_vertex_to_t8_vertex_num c ! i) + 3 \<le> 24"
      and rec: "fill_tree_vertices (Some hash) c (Suc i) xs (Some m) ?tv = Inr (found', tv')"
    have inj': "inj_on (\<lambda>j. t8_msh_element_vertex_to_t8_vertex_num c ! j) {Suc i..<Suc i + length
        xs}"
      using Cons.prems(3) by (rule inj_on_subset) auto
    show ?thesis
    proof (cases j)
      case 0
      with Cons.prems(5) r h have mn: "m = n"
        using m by simp
      have "\<forall>j'<length xs. \<forall>d<3. \<forall>e<3. 3 * (t8_msh_element_vertex_to_t8_vertex_num c ! i) + e \<noteq> 3
          * (t8_msh_element_vertex_to_t8_vertex_num c ! (Suc i + j')) + d"
      proof (intro allI impI)
        fix j' d e :: nat
        assume "j' < length xs" "d < 3" "e < 3"
        then have "t8_msh_element_vertex_to_t8_vertex_num c ! i \<noteq>
            t8_msh_element_vertex_to_t8_vertex_num c ! (Suc i + j')"
          using inj_onD [OF Cons.prems(3), of i "Suc i + j'"] by auto
        with \<open>d < 3\<close> \<open>e < 3\<close> show "3 * (t8_msh_element_vertex_to_t8_vertex_num c ! i) + e \<noteq> 3 *
            (t8_msh_element_vertex_to_t8_vertex_num c ! (Suc i + j')) + d"
          by arith
      qed
      then have keep: "\<And>e. e < 3 \<Longrightarrow> tv' ! (3 * (t8_msh_element_vertex_to_t8_vertex_num c ! i) + e)
          = ?tv ! (3 * (t8_msh_element_vertex_to_t8_vertex_num c ! i) + e)"
        using fill_other [OF rec] by blast
      from keep [of 0] keep [of 1] keep [of 2] bound Cons.prems(2) 0 mn show ?thesis
        by simp
    next
      case (Suc j')
      with Cons.prems(4,5) have "j' < length xs"
        "sc_hash_lookup hash (locidx_of_long (xs ! j')) = Inr (Some n)"
        by simp_all
      from Cons.IH [OF rec _ inj' this] Cons.prems(2) Suc show ?thesis
        by simp
    qed
  qed
qed

lemma update_Some_keeps:
  "k < length xs \<Longrightarrow> xs ! k \<noteq> None \<Longrightarrow> (xs[a := Some v]) ! k \<noteq> None"
  by (cases "a = k") simp_all

lemma fill_written:
  fixes tv :: "'a option list"
  shows "fill_tree_vertices vertices c i xs found tv = Inr (found', tv') \<Longrightarrow>
   length tv = 24 \<Longrightarrow> k < 24 \<Longrightarrow>
   tv ! k \<noteq> None \<or> (\<exists>j<length xs. \<exists>d<3. k = 3 * (t8_msh_element_vertex_to_t8_vertex_num c ! (i +
       j)) + d) \<Longrightarrow>
   tv' ! k \<noteq> None"
proof (induction xs arbitrary: i found tv)
  case Nil
  then show ?case by simp
next
  case (Cons x xs)
  from Cons.prems(1) show ?case
  proof (rule fill_step)
    fix h r and m :: "'a t8_msh_file_node_t"
    let ?tv = "tv[3 * (t8_msh_element_vertex_to_t8_vertex_num c ! i) := Some (fst (coordinates m)),
               3 * (t8_msh_element_vertex_to_t8_vertex_num c ! i) + 1 := Some (fst (snd
                   (coordinates m))),
               3 * (t8_msh_element_vertex_to_t8_vertex_num c ! i) + 2 := Some (snd (snd
                   (coordinates m)))]"
    assume bound: "3 * (t8_msh_element_vertex_to_t8_vertex_num c ! i) + 3 \<le> 24"
      and rec: "fill_tree_vertices vertices c (Suc i) xs (Some m) ?tv = Inr (found', tv')"
    have len: "length ?tv = 24"
      using Cons.prems(2) by simp
    from Cons.prems(4) consider "tv ! k \<noteq> None"
      | d where "d < 3" "k = 3 * (t8_msh_element_vertex_to_t8_vertex_num c ! i) + d"
      | j d where "j < length xs" "d < 3" "k = 3 * (t8_msh_element_vertex_to_t8_vertex_num c !
          (Suc i + j)) + d"
      by (auto simp: less_Suc_eq_0_disj)
    then have "?tv ! k \<noteq> None \<or> (\<exists>j<length xs. \<exists>d<3. k
        = 3 * (t8_msh_element_vertex_to_t8_vertex_num c ! (Suc i + j)) + d)"
    proof cases
      case 1
      with Cons.prems(2,3) have "?tv ! k \<noteq> None"
        by (intro update_Some_keeps) simp_all
      then show ?thesis ..
    next
      case 2
      then have "d = 0 \<or> d = 1 \<or> d = 2" by arith
      with 2 Cons.prems(2) bound show ?thesis
        by (auto simp: nth_list_update)
    next
      case 3
      then show ?thesis by blast
    qed
    from Cons.IH [OF rec len Cons.prems(3) this] show ?thesis .
  qed
qed

lemma perm_length: "c \<noteq> T8_ECLASS_COUNT \<Longrightarrow> length (t8_msh_element_vertex_to_t8_vertex_num c) = 8
    \<and> t8_eclass_num_vertices c \<le> 8"
  by (cases c) simp_all

lemma perm_bij:
  assumes "c \<noteq> T8_ECLASS_COUNT"
  shows "bij_betw (\<lambda>i. t8_msh_element_vertex_to_t8_vertex_num c ! i) {..<t8_eclass_num_vertices c}
      {..<t8_eclass_num_vertices c}"
proof -
  have len: "length (take (t8_eclass_num_vertices c) (t8_msh_element_vertex_to_t8_vertex_num c))
      = t8_eclass_num_vertices c"
    using assms by (cases c) simp_all
  have "bij_betw ((!) (take (t8_eclass_num_vertices c) (t8_msh_element_vertex_to_t8_vertex_num
      c))) {..<length (take (t8_eclass_num_vertices c) (t8_msh_element_vertex_to_t8_vertex_num c))}
      (set (take (t8_eclass_num_vertices c) (t8_msh_element_vertex_to_t8_vertex_num c)))"
    by (rule bij_betw_nth [OF perm_distinct refl refl])
  then have "bij_betw ((!) (take (t8_eclass_num_vertices c)
      (t8_msh_element_vertex_to_t8_vertex_num c))) {..<t8_eclass_num_vertices c}
      {..<t8_eclass_num_vertices c}"
    unfolding len perm_set [OF assms] .
  then show ?thesis
    by (rule bij_betw_cong [THEN iffD1, rotated]) simp
qed

lemma perm_inside: "c \<noteq> T8_ECLASS_COUNT \<Longrightarrow> i < t8_eclass_num_vertices c
    \<Longrightarrow> t8_msh_element_vertex_to_t8_vertex_num c ! i < t8_eclass_num_vertices c"
  using perm_bij [of c] by (auto simp: bij_betw_def)

lemma perm_onto:
  assumes "c \<noteq> T8_ECLASS_COUNT" "s < t8_eclass_num_vertices c"
  shows "\<exists>i<t8_eclass_num_vertices c. t8_msh_element_vertex_to_t8_vertex_num c ! i = s"
proof -
  from perm_bij [OF assms(1)] have "(\<lambda>i. t8_msh_element_vertex_to_t8_vertex_num c ! i) `
      {..<t8_eclass_num_vertices c} = {..<t8_eclass_num_vertices c}"
    by (simp add: bij_betw_def)
  with assms(2) have "s \<in> (\<lambda>i. t8_msh_element_vertex_to_t8_vertex_num c ! i) `
      {..<t8_eclass_num_vertices c}" by simp
  then show ?thesis by auto
qed

lemma perm_inj:
  assumes "c \<noteq> T8_ECLASS_COUNT" "i < t8_eclass_num_vertices c" "j < t8_eclass_num_vertices c"
      "t8_msh_element_vertex_to_t8_vertex_num c ! i = t8_msh_element_vertex_to_t8_vertex_num c ! j"
  shows "i = j"
  using perm_bij [OF assms(1)] assms(2-4) by (auto simp: bij_betw_def inj_on_def)


text \<open>
  C9. For every element class \<open>c\<close> of the table, the first \<open>t8_eclass_num_vertices c\<close>
  entries of its row of the vertex permutation are a bijection of
  \<open>{0, ..., t8_eclass_num_vertices c - 1}\<close>: every slot of the tree is the image of exactly
  one slot of the file, and every write of a coordinate is inside the first
  \<open>3 * t8_eclass_num_vertices c\<close> entries of the vertex array of the tree. Hence the loop
  that fills \<^verbatim>\<open>tree_vertices\<close> for an element of class \<open>c\<close>, when it ends, has written
  each of these entries and no entry behind them.
\<close>

theorem vertex_permutation_bijective:
  fixes tv :: "'a option list"
  assumes "c \<noteq> T8_ECLASS_COUNT"
  shows "bij_betw (\<lambda>i. t8_msh_element_vertex_to_t8_vertex_num c ! i) {..<t8_eclass_num_vertices c}
      {..<t8_eclass_num_vertices c} \<and>
    (\<forall>s<t8_eclass_num_vertices c. \<exists>!i. i < t8_eclass_num_vertices c
        \<and> t8_msh_element_vertex_to_t8_vertex_num c ! i = s) \<and>
    (\<forall>i<t8_eclass_num_vertices c. 3 * (t8_msh_element_vertex_to_t8_vertex_num c ! i) + 2 < 3 *
        t8_eclass_num_vertices c) \<and>
    (length node_indices = t8_eclass_num_vertices c \<and> length tv = 24 \<and>
     fill_tree_vertices vertices c 0 node_indices found tv = Inr (found', tv') \<longrightarrow>
       (\<forall>k<3 * t8_eclass_num_vertices c. tv' ! k \<noteq> None)
           \<and> (\<forall>k\<ge>3 * t8_eclass_num_vertices c. tv' ! k = tv ! k))"
proof (intro conjI impI allI)
  show "bij_betw (\<lambda>i. t8_msh_element_vertex_to_t8_vertex_num c ! i) {..<t8_eclass_num_vertices c}
      {..<t8_eclass_num_vertices c}"
    by (rule perm_bij [OF assms])
next
  fix s
  assume "s < t8_eclass_num_vertices c"
  from perm_onto [OF assms this] obtain i where i: "i < t8_eclass_num_vertices c"
      "t8_msh_element_vertex_to_t8_vertex_num c ! i = s"
    by blast
  show "\<exists>!i. i < t8_eclass_num_vertices c \<and> t8_msh_element_vertex_to_t8_vertex_num c ! i = s"
  proof (rule ex1I [of _ i])
    show "i < t8_eclass_num_vertices c \<and> t8_msh_element_vertex_to_t8_vertex_num c ! i = s" using i
        by simp
  next
    fix j assume "j < t8_eclass_num_vertices c \<and> t8_msh_element_vertex_to_t8_vertex_num c ! j = s"
    with i show "j = i" using perm_inj [OF assms, of j i] by simp
  qed
next
  fix i assume "i < t8_eclass_num_vertices c"
  from perm_inside [OF assms this] show "3 * (t8_msh_element_vertex_to_t8_vertex_num c ! i) + 2 <
      3 * t8_eclass_num_vertices c"
    by simp
next
  fix k
  assume a: "length node_indices = t8_eclass_num_vertices c \<and> length tv = 24 \<and>
     fill_tree_vertices vertices c 0 node_indices found tv = Inr (found', tv')"
    and k: "k < 3 * t8_eclass_num_vertices c"
  have nv8: "t8_eclass_num_vertices c \<le> 8" using perm_length [OF assms] by simp
  from k have "k div 3 < t8_eclass_num_vertices c" by simp
  from perm_onto [OF assms this] obtain j where j: "j < t8_eclass_num_vertices c"
      "t8_msh_element_vertex_to_t8_vertex_num c ! j = k div 3"
    by blast
  have "k = 3 * (t8_msh_element_vertex_to_t8_vertex_num c ! (0 + j)) + k mod 3"
    using j by simp
  with j a have "\<exists>j<length node_indices. \<exists>d<3. k = 3 * (t8_msh_element_vertex_to_t8_vertex_num c !
      (0 + j)) + d"
    by (intro exI [of _ j] conjI exI [of _ "k mod 3"]) simp_all
  moreover have "k < 24" using k nv8 by simp
  ultimately show "tv' ! k \<noteq> None"
    using fill_written [of vertices c 0 node_indices found tv found' tv' k] a
    by blast
next
  fix k
  assume a: "length node_indices = t8_eclass_num_vertices c \<and> length tv = 24 \<and>
     fill_tree_vertices vertices c 0 node_indices found tv = Inr (found', tv')"
    and k: "3 * t8_eclass_num_vertices c \<le> k"
  have "\<forall>j<length node_indices. \<forall>d<3. k \<noteq> 3 * (t8_msh_element_vertex_to_t8_vertex_num c ! (0 + j))
      + d"
  proof (intro allI impI)
    fix j d :: nat
    assume "j < length node_indices" "d < 3"
    with a have "t8_msh_element_vertex_to_t8_vertex_num c ! j < t8_eclass_num_vertices c"
      using perm_inside [OF assms, of j] by simp
    with k \<open>d < 3\<close> show "k \<noteq> 3 * (t8_msh_element_vertex_to_t8_vertex_num c ! (0 + j)) + d"
      by simp
  qed
  with a show "tv' ! k = tv ! k"
    using fill_other [of vertices c 0 node_indices found tv found' tv' k] by blast
qed

lemma example_fill:
  "fill_tree_vertices (Some example_table) T8_ECLASS_QUAD 0 [1, 2, 3, 4] None
       (replicate 24 None) =
     Inr (Some \<lparr>index = 4, coordinates = (0, 1, 0)\<rparr>,
       [Some 0, Some 0, Some 0, Some 1, Some 0, Some 0, Some 0, Some 1, Some 0,
        Some 1, Some 1, Some 0, None, None, None, None, None, None,
        None, None, None, None, None, None])"
  by code_simp

theorem vertex_permutation_bijective_witness:
  "T8_ECLASS_QUAD \<noteq> T8_ECLASS_COUNT \<and>
   bij_betw (\<lambda>i. t8_msh_element_vertex_to_t8_vertex_num T8_ECLASS_QUAD ! i) {..<4} {..<4} \<and>
   length [1, 2, 3, 4 :: int] = t8_eclass_num_vertices T8_ECLASS_QUAD \<and>
   length (replicate 24 (None :: int option)) = 24 \<and>
   list_all (\<lambda>x. x \<noteq> None)
     (take (3 * t8_eclass_num_vertices T8_ECLASS_QUAD)
        (snd (projr (fill_tree_vertices (Some example_table) T8_ECLASS_QUAD 0 [1, 2, 3, 4] None
           (replicate 24 None)))))"
proof -
  have ne: "T8_ECLASS_QUAD \<noteq> T8_ECLASS_COUNT" by simp
  from vertex_permutation_bijective [OF ne, of "[1, 2, 3, 4]" "replicate 24 None"
      "Some example_table" None] example_fill
  show ?thesis by simp
qed

subsection \<open>The loop over the elements\<close>

lemma sscanf_header_stale:
  "sscanf_header sc l None None = (Some t, nt0) \<Longrightarrow>
   sscanf_header sc l et nt = (Some t, case nt0 of Some k \<Rightarrow> Some k | None \<Rightarrow> nt)"
  by (auto simp: sscanf_header_def split: option.splits prod.splits)

lemma read_node_indices_length:
  "read_node_indices sc dbg k lm = Inr (Some vs) \<Longrightarrow> length vs = k"
  by (induction k arbitrary: lm vs)
     (auto split: if_splits option.splits sum.splits prod.splits)

lemma fill_ok:
  fixes tv :: "'a option list"
  assumes "c \<noteq> T8_ECLASS_COUNT"
  shows "i + length xs \<le> t8_eclass_num_vertices c \<Longrightarrow> list_all (declared hash) xs \<Longrightarrow>
    \<exists>found' tv'. fill_tree_vertices (Some hash) c i xs found tv = Inr (found', tv')"
proof (induction xs arbitrary: i found tv)
  case Nil
  then show ?case by simp
next
  case (Cons x xs)
  from Cons.prems(2) obtain n where n: "sc_hash_lookup hash (locidx_of_long x) = Inr (Some n)"
    by (auto simp: declared_def split: sum.splits option.splits)
  have i: "i < t8_eclass_num_vertices c" using Cons.prems(1) by simp
  have "t8_eclass_num_vertices c \<le> 8" "length (t8_msh_element_vertex_to_t8_vertex_num c) = 8"
      using perm_length [OF assms] by simp_all
  with i have b1: "i < length (t8_msh_element_vertex_to_t8_vertex_num c)" by simp
  have "t8_msh_element_vertex_to_t8_vertex_num c ! i < t8_eclass_num_vertices c"
      by (rule perm_inside [OF assms i])
  with \<open>t8_eclass_num_vertices c \<le> 8\<close> have b2: "\<not> 24 < 3 * (t8_msh_element_vertex_to_t8_vertex_num
      c ! i) + 3" by simp
  from Cons.prems have "Suc i + length xs \<le> t8_eclass_num_vertices c" "list_all (declared hash) xs"
    by simp_all
  from Cons.IH [OF this] n b1 b2 show ?case
    by (simp add: Let_def)
qed








lemma read_next_line_consumes:
  "significant (unread fp) = l # ls \<Longrightarrow>
   \<exists>fp' n. t8_cmesh_msh_read_next_line line fp = (True, Some l, fp') \<and>
     significant (unread fp') = ls \<and> n < length (unread fp) \<and>
     unread fp' = drop (Suc n) (unread fp) \<and>
     (eof fp' \<longleftrightarrow> eof fp \<or> \<not> list_all terminated (take (Suc n) (unread fp)))"
proof (induction line fp rule: t8_cmesh_msh_read_next_line.induct)
  case (1 line fp)
  from "1.prems" obtain r rs where u: "unread fp = r # rs"
    by (cases "unread fp") (auto simp: significant_def)
  let ?fp = "fp\<lparr>unread := rs, eof := (eof fp \<or> \<not> terminated r)\<rparr>"
  have g: "getline fp = (Some r, ?fp)"
    using u by (simp add: getline_def)
  show ?case
  proof (cases "comment_or_blank (c_str r)")
    case True
    with "1.prems" u have "significant (unread ?fp) = l # ls"
      by (simp add: significant_def)
    from "1.IH" [OF g [symmetric] refl True this] have "\<exists>fp' n.
      t8_cmesh_msh_read_next_line (Some (c_str r)) ?fp = (True, Some l, fp') \<and>
      significant (unread fp') = ls \<and> n < length rs \<and> unread fp' = drop (Suc n) rs \<and>
      (eof fp' \<longleftrightarrow> (eof fp \<or> \<not> terminated r) \<or> \<not> list_all terminated (take (Suc n) rs))"
      by simp
    then obtain fp' n where
      "t8_cmesh_msh_read_next_line (Some (c_str r)) ?fp = (True, Some l, fp')"
      "significant (unread fp') = ls" "n < length rs" "unread fp' = drop (Suc n) rs"
      "eof fp' \<longleftrightarrow> (eof fp \<or> \<not> terminated r) \<or> \<not> list_all terminated (take (Suc n) rs)"
      by blast
    with g True u show ?thesis
      by (intro exI [of _ fp'] exI [of _ "Suc n"])
         (auto simp: t8_cmesh_msh_read_next_line.simps [of line fp])
  next
    case False
    with "1.prems" u g show ?thesis
      by (intro exI [of _ ?fp] exI [of _ 0])
         (auto simp: t8_cmesh_msh_read_next_line.simps [of line fp] significant_def)
  qed
qed

lemma find_section_found:
  "significant (unread fp) = pre @ m # rest \<Longrightarrow>
   \<not> eof fp \<Longrightarrow> list_all terminated (butlast (unread fp)) \<Longrightarrow>
   first_word \<noteq> marker \<Longrightarrow>
   list_all (\<lambda>p. case sscanf_word p of Inr (Some w) \<Rightarrow> w \<noteq> marker | _ \<Rightarrow> False) pre \<Longrightarrow>
   sscanf_word m = Inr (Some marker) \<Longrightarrow>
   \<exists>fp'. find_section marker first_word line fp = Inr (True, Some m, fp') \<and>
     significant (unread fp') = rest"
proof (induction pre arbitrary: fp first_word line)
  case Nil
  then have "significant (unread fp) = m # rest" by simp
  from read_next_line_significant [OF this] obtain fp' where
    rd: "t8_cmesh_msh_read_next_line line fp = (True, Some m, fp')"
    and sig': "significant (unread fp') = rest"
    by blast
  have stop: "find_section marker marker (Some m) fp' = Inr (True, Some m, fp')"
    by (simp add: find_section.simps [of marker marker])
  from rd Nil.prems(2,4,6) stop sig' show ?case
    by (simp add: find_section.simps [of marker first_word line fp])
next
  case (Cons p pre)
  then have sig: "significant (unread fp) = p # (pre @ m # rest)" by simp
  from read_next_line_consumes [OF sig] obtain fp' n where
    rd: "t8_cmesh_msh_read_next_line line fp = (True, Some p, fp')"
    and sig': "significant (unread fp') = pre @ m # rest"
    and n: "n < length (unread fp)" "unread fp' = drop (Suc n) (unread fp)"
    and e: "eof fp' \<longleftrightarrow> eof fp \<or> \<not> list_all terminated (take (Suc n) (unread fp))"
    by blast
  from sig' have ne: "unread fp' \<noteq> []"
    by (auto simp: significant_def)
  with n have "Suc n < length (unread fp)" by simp
  then have tk: "take (Suc n) (unread fp) = take (Suc n) (butlast (unread fp))"
    by (simp add: take_butlast)
  have "list_all terminated (take (Suc n) (butlast (unread fp)))"
    using Cons.prems(3) by (auto simp: list_all_iff dest: in_set_takeD)
  with tk e Cons.prems(2) have e': "\<not> eof fp'" by simp
  have "butlast (unread fp') = drop (Suc n) (butlast (unread fp))"
    using n by (simp add: drop_butlast)
  with Cons.prems(3) have t': "list_all terminated (butlast (unread fp'))"
    by (auto simp: list_all_iff dest: in_set_dropD)
  from Cons.prems(5) obtain w where w: "sscanf_word p = Inr (Some w)" "w \<noteq> marker"
    and pre: "list_all (\<lambda>p. case sscanf_word p of Inr (Some w) \<Rightarrow> w \<noteq> marker | _ \<Rightarrow> False) pre"
    by (auto split: sum.splits option.splits)
  from Cons.IH [OF sig' e' t' w(2) pre Cons.prems(6), of "Some p"] obtain fp'' where
    "find_section marker w (Some p) fp' = Inr (True, Some m, fp'')"
    "significant (unread fp'') = rest"
    by blast
  with rd w Cons.prems(2,4) show ?case
    by (simp add: find_section.simps [of marker first_word line fp])
qed

lemma lines_of_terminated: "list_all terminated (butlast (lines_of bytes))"
proof (induction bytes)
  case Nil
  show ?case by simp
next
  case (Cons c cs)
  show ?case
  proof (cases "c = CHR 0x0A")
    case True
    with Cons show ?thesis
      by (cases "lines_of cs") (simp_all add: terminated_def)
  next
    case False
    with Cons show ?thesis
      by (cases "lines_of cs") (auto simp: terminated_def split: list.splits if_splits)
  qed
qed


lemma locidx_of_long_id: "- (2 ^ 63) \<le> x \<Longrightarrow> x < 2 ^ 63 \<Longrightarrow> locidx_of_long x = x"
  by (simp add: locidx_of_long_def T8_LOCIDX_BITS_def signed_take_bit_int_eq_self)



subsection \<open>The fields of a line and the loops of the reader\<close>

text \<open>
  On a line whose fields are separated by single blanks, the loops of the reader over
  \<^verbatim>\<open>strsep\<close> and \<^verbatim>\<open>sscanf\<close> read the fields of the line: for an element line that
  is in order they read the class and the node indices that the line lists.
\<close>

lemma first_field_chars: "c \<in> set (first_field s) \<Longrightarrow> \<not> isspace c"
  by (auto simp: first_field_def dest: set_takeWhileD)

lemma fields_word: "w \<in> set (fields s) \<Longrightarrow> w \<noteq> [] \<and> (\<forall>c\<in>set w. \<not> isspace c)"
proof (induction s rule: fields.induct)
  case (1 s)
  then show ?case
    by (subst (asm) (2) fields.simps) (auto simp: first_field_chars split: if_splits)
qed

lemma first_field_append:
  assumes "w \<noteq> []" and "\<forall>c\<in>set w. \<not> isspace c" and "r = [] \<or> isspace (hd r)"
  shows "first_field (w @ r) = w" and "behind_field (w @ r) = r"
proof -
  from assms(1,2) have d: "dropWhile isspace (w @ r) = w @ r"
    by (cases w) auto
  from assms(3) have t: "takeWhile (\<lambda>c. \<not> isspace c) r = []" "dropWhile (\<lambda>c. \<not> isspace c) r = r"
    by (cases r; auto)+
  from assms(2) t show "first_field (w @ r) = w"
    by (simp add: first_field_def d takeWhile_append2)
  from assms(2) t show "behind_field (w @ r) = r"
    by (simp add: behind_field_def d dropWhile_append2)
qed

lemma conv_word:
  assumes "word_conversion conv" and "integer_field conv w = Some v"
    and "w \<noteq> []" and "\<forall>c\<in>set w. \<not> isspace c" and "r = [] \<or> isspace (hd r)"
  shows "conv (w @ r) = Some (v, r)"
proof -
  from assms(2) have "conv w = Some (v, [])"
    by (auto simp: integer_field_def split: option.splits prod.splits list.splits)
  moreover from assms(1) have "conv (w @ r)
      = map_option (\<lambda>(v, r'). (v, r' @ behind_field (w @ r))) (conv (first_field (w @ r)))"
    unfolding word_conversion_def by blast
  ultimately show ?thesis
    using first_field_append [OF assms(3-5)] by simp
qed

lemma conv_fields:
  assumes "word_conversion conv" and "fields s = w # ws" and "integer_field conv w = Some v"
  shows "conv s = Some (v, behind_field s)" and "fields (behind_field s) = ws"
proof -
  from assms(2) have w: "first_field s = w" and ws: "fields (behind_field s) = ws"
    by (subst (asm) fields.simps; simp split: if_splits)+
  from assms(3) have "conv w = Some (v, [])"
    by (auto simp: integer_field_def split: option.splits prod.splits list.splits)
  moreover from assms(1) have "conv s
      = map_option (\<lambda>(v, r'). (v, r' @ behind_field s)) (conv (first_field s))"
    unfolding word_conversion_def by blast
  ultimately show "conv s = Some (v, behind_field s)" using w by simp
  show "fields (behind_field s) = ws" by (rule ws)
qed

lemma header_fields:
  assumes "word_conversion (scan_int sc)" and "fields l = a # b # c # others"
    and "integer_field (scan_int sc) a = Some n" and "integer_field (scan_int sc) b = Some t"
    and "integer_field (scan_int sc) c = Some k"
  shows "sscanf_header sc l et nt = (Some t, Some k)"
proof -
  note c1 = conv_fields [OF assms(1) assms(2) assms(3)]
  note c2 = conv_fields [OF assms(1) c1(2) assms(4)]
  note c3 = conv_fields [OF assms(1) c2(2) assms(5)]
  from c1(1) c2(1) c3(1) show ?thesis
    by (simp add: sscanf_header_def)
qed


lemma join_Cons:
  "join (w # ws) @ tail = w @ (if ws = [] then tail else CHR '' '' # join ws @ tail)"
  by (cases ws) simp_all

lemma strsep_word:
  "\<forall>c\<in>set w. \<not> isspace c \<Longrightarrow> strsep (Some (w @ CHR '' '' # r)) = Some r"
proof -
  assume "\<forall>c\<in>set w. \<not> isspace c"
  then have "\<forall>c\<in>set w. c \<noteq> CHR '' ''"
    by (auto simp: isspace_def)
  then have "dropWhile (\<lambda>c. c \<noteq> CHR '' '') (w @ CHR '' '' # r) = CHR '' '' # r"
    by (simp add: dropWhile_append2)
  then show ?thesis
    by (simp add: strsep_def)
qed

lemma skip_words_join:
  "list_all (\<lambda>w. w \<noteq> [] \<and> (\<forall>c\<in>set w. \<not> isspace c)) ws \<Longrightarrow> j < length ws \<Longrightarrow>
   skip_words dbg j (Some (join ws @ tail)) = Inr (Some (join (drop j ws) @ tail))"
proof (induction j arbitrary: ws)
  case 0
  then show ?case by simp
next
  case (Suc j)
  from Suc.prems(2) obtain w v vs where ws: "ws = w # v # vs"
    by (cases ws; cases "tl ws") auto
  with Suc.prems(1) have w: "w \<noteq> []" "\<forall>c\<in>set w. \<not> isspace c"
    and rest: "list_all (\<lambda>w. w \<noteq> [] \<and> (\<forall>c\<in>set w. \<not> isspace c)) (v # vs)"
    by simp_all
  have s: "join ws @ tail = w @ CHR '' '' # (join (v # vs) @ tail)"
    by (simp add: ws)
  from Suc.prems(2) ws have j: "j < length (v # vs)" by simp
  from Suc.IH [OF rest j] strsep_word [OF w(2)] w(1) show ?case
    by (simp add: s ws)
qed

lemma read_node_indices_join:
  "list_all (\<lambda>w. w \<noteq> [] \<and> (\<forall>c\<in>set w. \<not> isspace c)) ws \<Longrightarrow> list_all isspace tail \<Longrightarrow>
   word_conversion (scan_long sc) \<Longrightarrow> m \<le> length ws \<Longrightarrow>
   list_all (\<lambda>w. integer_field (scan_long sc) w \<noteq> None) (take m ws) \<Longrightarrow>
   read_node_indices sc dbg m (Some (join ws @ tail))
     = Inr (Some (map (\<lambda>w. the (integer_field (scan_long sc) w)) (take m ws)))"
proof (induction m arbitrary: ws)
  case 0
  then show ?case by simp
next
  case (Suc m)
  from Suc.prems(4) obtain w vs where ws: "ws = w # vs"
    by (cases ws) auto
  with Suc.prems(1) have w: "w \<noteq> []" "\<forall>c\<in>set w. \<not> isspace c"
    and rest: "list_all (\<lambda>w. w \<noteq> [] \<and> (\<forall>c\<in>set w. \<not> isspace c)) vs"
    by simp_all
  from Suc.prems(5) ws obtain v where v: "integer_field (scan_long sc) w = Some v"
    and ints: "list_all (\<lambda>w. integer_field (scan_long sc) w \<noteq> None) (take m vs)"
    by auto
  let ?r = "if vs = [] then tail else CHR '' '' # join vs @ tail"
  have s: "join ws @ tail = w @ ?r"
    by (simp add: ws join_Cons)
  have r: "?r = [] \<or> isspace (hd ?r)"
    using Suc.prems(2) by (cases tail) (auto simp: isspace_def)
  have sc: "scan_long sc (w @ ?r) = Some (v, ?r)"
    by (rule conv_word [OF Suc.prems(3) v w r])
  have ne: "w @ ?r \<noteq> []" using w(1) by simp
  have m: "m \<le> length vs" using Suc.prems(4) ws by simp
  have "read_node_indices sc dbg m (strsep (Some (w @ ?r)))
     = Inr (Some (map (\<lambda>w. the (integer_field (scan_long sc) w)) (take m vs)))"
  proof (cases vs)
    case Nil
    with m show ?thesis by simp
  next
    case (Cons u us)
    then have "strsep (Some (w @ ?r)) = Some (join vs @ tail)"
      using strsep_word [OF w(2)] by simp
    with Suc.IH [OF rest Suc.prems(2,3) m ints] show ?thesis by simp
  qed
  with sc ne v show ?case
    unfolding s by (simp add: ws)
qed

lemma num_vertices_positive: "c \<noteq> T8_ECLASS_COUNT \<Longrightarrow> 0 < t8_eclass_num_vertices c"
  by (cases c) simp_all

lemma element_line_scanned:
  assumes "word_conversion (scan_int sc)"
    and "element_line sc l = Some (c, node_indices)"
  shows "scanned_eclass sc l = Some c"
    and "word_conversion (scan_long sc) \<Longrightarrow> blank_separated l \<Longrightarrow>
       int (length (fields l)) \<le> INT_MAX \<Longrightarrow> scanned_node_indices sc dbg l = Some node_indices"
proof -
  from assms(2) obtain a b d others n t k where
    f: "fields l = a # b # d # others"
    and v: "integer_field (scan_int sc) a = Some n" "integer_field (scan_int sc) b = Some t"
      "integer_field (scan_int sc) d = Some k"
    and t: "0 \<le> t" "t \<le> T8_NUM_GMSH_ELEM_CLASSES"
      "t8_msh_element_type_to_eclass ! nat t \<noteq> T8_ECLASS_COUNT"
    and k: "0 \<le> k"
    and len: "length others = nat k + t8_eclass_num_vertices c"
    and ints: "list_all (\<lambda>w. integer_field (scan_long sc) w \<noteq> None) (drop (nat k) others)"
    and c: "c = t8_msh_element_type_to_eclass ! nat t"
    and idx: "node_indices = map (\<lambda>w. the (integer_field (scan_long sc) w)) (drop (nat k) others)"
    by (auto simp: element_line_def split: list.splits option.splits if_splits)
  have hd: "sscanf_header sc l None None = (Some t, Some k)"
    by (rule header_fields [OF assms(1) f v])
  with t c show ec: "scanned_eclass sc l = Some c"
    by (simp add: scanned_eclass_def)
  assume wl: "word_conversion (scan_long sc)" and bs: "blank_separated l"
    and bound: "int (length (fields l)) \<le> INT_MAX"
  define tail where "tail = drop (length (join (fields l))) l"
  from bs have l: "l = join (fields l) @ tail" and tail: "list_all isspace tail"
    unfolding blank_separated_def tail_def Let_def
    by (metis append_take_drop_id, simp)
  have words: "list_all (\<lambda>w. w \<noteq> [] \<and> (\<forall>c\<in>set w. \<not> isspace c)) (fields l)"
    using fields_word [of _ l] by (simp add: list_all_iff)
  have nv: "0 < t8_eclass_num_vertices c"
    using t(3) c by (simp add: num_vertices_positive)
  have lt: "nat (3 + k) < length (fields l)"
    using f len nv k by simp
  from bound f len k have im: "\<not> INT_MAX < 3 + k"
    by (simp add: INT_MAX_def)
  have dr: "drop (nat (3 + k)) (fields l) = drop (nat k) others"
    using f k by (simp add: nat_add_distrib numeral_3_eq_3)
  have sk: "skip_words dbg (nat (3 + k)) (Some l) = Inr (Some (join (drop (nat k) others) @ tail))"
    using skip_words_join [OF words lt, of dbg tail] l dr by simp
  have words': "list_all (\<lambda>w. w \<noteq> [] \<and> (\<forall>c\<in>set w. \<not> isspace c)) (drop (nat k) others)"
    using words f by (auto simp: list_all_iff dest: in_set_dropD)
  have m: "t8_eclass_num_vertices c \<le> length (drop (nat k) others)"
    "take (t8_eclass_num_vertices c) (drop (nat k) others) = drop (nat k) others"
    using len by simp_all
  from read_node_indices_join [OF words' tail wl m(1), of dbg] ints m(2)
  have ri: "read_node_indices sc dbg (t8_eclass_num_vertices c)
      (Some (join (drop (nat k) others) @ tail)) = Inr (Some node_indices)"
    by (simp add: idx)
  from hd ec im sk ri show "scanned_node_indices sc dbg l = Some node_indices"
    by (simp add: scanned_node_indices_def)
qed


lemma takeWhile_before:
  "b = [] \<or> \<not> P (hd b) \<Longrightarrow> takeWhile P (x @ b) = takeWhile P x"
  by (induction x) (auto simp: takeWhile_eq_Nil_iff neq_Nil_conv)

lemma dropWhile_before:
  "b = [] \<or> \<not> P (hd b) \<Longrightarrow> dropWhile P (x @ b) = dropWhile P x @ b"
  by (induction x) (auto simp: dropWhile_eq_self_iff neq_Nil_conv)

lemma space_no_digit: "isspace c \<Longrightarrow> \<not> is_digit c"
  by (auto simp: isspace_def is_digit_def)

lemma word_split:
  "dropWhile isspace s = first_field s @ behind_field s"
  "behind_field s = [] \<or> isspace (hd (behind_field s))"
  "first_field s = [] \<Longrightarrow> behind_field s = []"
proof -
  show "dropWhile isspace s = first_field s @ behind_field s"
    by (simp add: first_field_def behind_field_def)
  show "behind_field s = [] \<or> isspace (hd (behind_field s))"
    unfolding behind_field_def using hd_dropWhile [of "\<lambda>c. \<not> isspace c" "dropWhile isspace s"]
    by auto
  assume "first_field s = []"
  then have "dropWhile isspace s = [] \<or> isspace (hd (dropWhile isspace s))"
    by (auto simp: first_field_def takeWhile_eq_Nil_iff)
  moreover have "dropWhile isspace s \<noteq> [] \<Longrightarrow> \<not> isspace (hd (dropWhile isspace s))"
    by (rule hd_dropWhile)
  ultimately have "dropWhile isspace s = []" by blast
  then show "behind_field s = []"
    unfolding behind_field_def by (simp only: dropWhile.simps)
qed

lemma scan_decimal_word: "word_conversion scan_decimal"
  unfolding word_conversion_def
proof
  fix s
  let ?w = "first_field s" and ?b = "behind_field s"
  note sp = word_split [of s]
  have b: "?b = [] \<or> \<not> is_digit (hd ?b)"
    using sp(2) space_no_digit by blast
  show "scan_decimal s = map_option (\<lambda>(v, r). (v, r @ ?b)) (scan_decimal ?w)"
  proof (cases "?w = []")
    case True
    with sp(1,3) have d: "dropWhile isspace s = []" by (simp only: append_Nil)
    show ?thesis
      by (simp add: scan_decimal_def d True)
  next
    case False
    then have nsp: "\<not> isspace (hd ?w)"
      using first_field_chars [of "hd ?w" s] by simp
    with False have dw: "dropWhile isspace ?w = ?w"
      by (cases ?w) auto
    let ?x = "if hd ?w = CHR ''-'' \<or> hd ?w = CHR ''+'' then tl ?w else ?w"
    have hd: "hd (?w @ ?b) = hd ?w" using False by simp
    have tl: "(if hd ?w = CHR ''-'' \<or> hd ?w = CHR ''+'' then tl (?w @ ?b) else ?w @ ?b) = ?x @ ?b"
      using False by simp
    show ?thesis
      using False
      by (simp add: scan_decimal_def sp(1) dw hd tl Let_def
          takeWhile_before [where P = is_digit, OF b] dropWhile_before [where P = is_digit, OF b]
          del: takeWhile_append dropWhile_append)
  qed
qed

lemma decimal_word_conversion:
  "word_conversion (scan_int decimal_scanf)" "word_conversion (scan_long decimal_scanf)"
  by (simp_all add: decimal_scanf_def scan_decimal_word)






subsection \<open>The coordinates of a tree\<close>

lemma read_element_accepted:
  assumes sig: "significant (unread (es_fp st)) = l # ls"
    and c: "scanned_eclass sc l = Some c"
    and dim: "t8_eclass_to_dimension c = dim"
    and idxs: "scanned_node_indices sc dbg l = Some idxs"
    and fl: "fill_tree_vertices vertices c 0 idxs (es_found_node st) (es_tree_vertices st)
        = Inr (found', tv')"
  shows "\<exists>st'. read_element sc dbg vertices dim st = Inr (Some st') \<and>
     es_tree_count st' = es_tree_count st + 1 \<and>
     cm_classes (es_cmesh st') = cm_classes (es_cmesh st) @ [(es_tree_count st, c)] \<and>
     cm_vertices (es_cmesh st') =
       cm_vertices (es_cmesh st) @ [(es_tree_count st, take (3 * t8_eclass_num_vertices c) tv')]"
proof -
  from read_next_line_significant [OF sig] obtain fp' where
    rd: "t8_cmesh_msh_read_next_line (es_line st) (es_fp st) = (True, Some l, fp')"
    by blast
  from c obtain t nt0 where hd0: "sscanf_header sc l None None = (Some t, nt0)"
    and t: "0 \<le> t" "t \<le> T8_NUM_GMSH_ELEM_CLASSES"
      "t8_msh_element_type_to_eclass ! nat t \<noteq> T8_ECLASS_COUNT"
    and ct: "c = t8_msh_element_type_to_eclass ! nat t"
    by (auto simp: scanned_eclass_def split: option.splits prod.splits if_splits)
  from idxs hd0 c obtain k lm where k: "nt0 = Some k" "\<not> INT_MAX < 3 + k"
    and sk: "skip_words dbg (nat (3 + k)) (Some l) = Inr lm"
    and ri: "read_node_indices sc dbg (t8_eclass_num_vertices c) lm = Inr (Some idxs)"
    by (auto simp: scanned_node_indices_def split: option.splits if_splits sum.splits)
  have hd: "sscanf_header sc l (es_ele_type st) (es_num_tags st) = (Some t, Some k)"
    using sscanf_header_stale [OF hd0, of "es_ele_type st" "es_num_tags st"] k by simp
  from rd hd t ct dim k sk ri fl show ?thesis
    by (simp add: read_element_def Let_def
        t8_cmesh_set_tree_vertices_def t8_cmesh_set_tree_class_def)
qed

lemma scanned_node_coordinates:
  fixes st :: "'a ele_state"
  assumes "significant (unread (es_fp st)) = l # ls"
    and "scanned_eclass sc l = Some c"
    and "t8_eclass_to_dimension c = dim"
    and "scanned_node_indices sc dbg l = Some node_indices"
    and "list_all (declared hash) node_indices"
    and "length (es_tree_vertices st) = 24"
    and "i < t8_eclass_num_vertices c"
    and "sc_hash_lookup hash (locidx_of_long (node_indices ! i)) = Inr (Some n)"
  shows "(\<exists>st' tree_vertices.
       read_element sc dbg (Some hash) dim st = Inr (Some st') \<and>
       cm_classes (es_cmesh st') = cm_classes (es_cmesh st) @ [(es_tree_count st, c)] \<and>
       cm_vertices (es_cmesh st') =
         cm_vertices (es_cmesh st) @ [(es_tree_count st, tree_vertices)] \<and>
       length tree_vertices = 3 * t8_eclass_num_vertices c \<and>
       tree_vertices ! (3 * (t8_msh_element_vertex_to_t8_vertex_num c ! i))
           = Some (fst (coordinates n)) \<and>
       tree_vertices ! (3 * (t8_msh_element_vertex_to_t8_vertex_num c ! i) + 1)
           = Some (fst (snd (coordinates n))) \<and>
       tree_vertices ! (3 * (t8_msh_element_vertex_to_t8_vertex_num c ! i) + 2)
           = Some (snd (snd (coordinates n)))) \<and>
     take 4 (t8_msh_element_vertex_to_t8_vertex_num T8_ECLASS_QUAD) = [0, 1, 3, 2] \<and>
     t8_msh_element_vertex_to_t8_vertex_num T8_ECLASS_QUAD ! 2 = 3
         \<and> t8_msh_element_vertex_to_t8_vertex_num T8_ECLASS_QUAD ! 3 = 2"
proof -
  from assms(2) have cne: "c \<noteq> T8_ECLASS_COUNT"
    by (auto simp: scanned_eclass_def split: option.splits prod.splits if_splits)
  from assms(2,4) obtain lm where "read_node_indices sc dbg (t8_eclass_num_vertices c) lm
      = Inr (Some node_indices)"
    by (auto simp: scanned_node_indices_def split: option.splits prod.splits if_splits sum.splits)
  then have len: "length node_indices = t8_eclass_num_vertices c"
    by (rule read_node_indices_length)
  from fill_ok [OF cne _ assms(5), of 0 "es_found_node st" "es_tree_vertices st"] len
  obtain found' tv' where fl: "fill_tree_vertices (Some hash) c 0 node_indices (es_found_node st)
      (es_tree_vertices st) = Inr (found', tv')"
    by auto
  from read_element_accepted [OF assms(1-4) fl] obtain st' where
    st': "read_element sc dbg (Some hash) dim st = Inr (Some st')"
    "cm_classes (es_cmesh st') = cm_classes (es_cmesh st) @ [(es_tree_count st, c)]"
    "cm_vertices (es_cmesh st') =
       cm_vertices (es_cmesh st) @ [(es_tree_count st, take (3 * t8_eclass_num_vertices c) tv')]"
    by blast
  have l24: "length tv' = 24"
    using fill_length [OF fl] assms(6) by simp
  have nv8: "t8_eclass_num_vertices c \<le> 8" using perm_length [OF cne] by simp
  have lt: "length (take (3 * t8_eclass_num_vertices c) tv') = 3 * t8_eclass_num_vertices c"
    using l24 nv8 by simp
  have inj: "inj_on (\<lambda>j. t8_msh_element_vertex_to_t8_vertex_num c ! j) {0..<0 + length
      node_indices}"
    using perm_bij [OF cne] len by (simp add: bij_betw_def lessThan_atLeast0)
  from fill_value [OF fl assms(6) inj, of i n] assms(7,8) len
  have v: "tv' ! (3 * (t8_msh_element_vertex_to_t8_vertex_num c ! i)) = Some (fst (coordinates n))"
    "tv' ! (3 * (t8_msh_element_vertex_to_t8_vertex_num c ! i) + 1)
        = Some (fst (snd (coordinates n)))"
    "tv' ! (3 * (t8_msh_element_vertex_to_t8_vertex_num c ! i) + 2)
        = Some (snd (snd (coordinates n)))"
    by simp_all
  have "t8_msh_element_vertex_to_t8_vertex_num c ! i < t8_eclass_num_vertices c"
      by (rule perm_inside [OF cne assms(7)])
  then have "3 * (t8_msh_element_vertex_to_t8_vertex_num c ! i) + 2 < 3 * t8_eclass_num_vertices
      c" by simp
  with v have "take (3 * t8_eclass_num_vertices c) tv' ! (3 *
      (t8_msh_element_vertex_to_t8_vertex_num c ! i)) = Some (fst (coordinates n))"
    "take (3 * t8_eclass_num_vertices c) tv' ! (3 * (t8_msh_element_vertex_to_t8_vertex_num c ! i)
        + 1) = Some (fst (snd (coordinates n)))"
    "take (3 * t8_eclass_num_vertices c) tv' ! (3 * (t8_msh_element_vertex_to_t8_vertex_num c ! i)
        + 2) = Some (snd (snd (coordinates n)))"
    by simp_all
  with st' lt show ?thesis
    by simp
qed


text \<open>
  C1, as the claim states it, fails at its example: for the quadrilateral of the file
  \<^const>\<open>msh_quad\<close> with the node indices \<open>1 2 3 4\<close>, the node listed third is the
  node 3 at \<open>(1, 1, 0)\<close>, and slot 2 of the tree (the entries 6, 7, 8 of its vertex array)
  does not hold these coordinates: it holds \<open>(0, 1, 0)\<close>, the coordinates of the node
  listed fourth. Its rule fails for a line with two blanks between two fields: the
  triangle \<^const>\<open>double_blank_line\<close> lists the nodes \<open>1 2 3\<close>, the reader reads
  \<open>1 1 2\<close>, and slot 1 of the tree, where the permutation sends the node listed second,
  does not hold the coordinates \<open>(1, 0, 0)\<close> of the node 2.
\<close>

theorem quad_slot_two_counterexample:
  "t8_cmesh_from_msh_file decimal_scanf False (Some msh_quad) 0 2 = Inr (Some msh_quad_mesh) \<and>
   nr_table (projr (t8_msh_file_read_nodes decimal_scanf False (fopen msh_quad)))
     = Some example_table \<and>
   element_line decimal_scanf quad_line = Some (T8_ECLASS_QUAD, [1, 2, 3, 4]) \<and>
   sc_hash_lookup example_table (locidx_of_long ([1, 2, 3, 4] ! 2))
     = Inr (Some \<lparr>index = 3, coordinates = (1, 1, 0)\<rparr>) \<and>
   take 3 (drop (3 * 2) (snd (hd (cm_vertices msh_quad_mesh)))) \<noteq> [Some 1, Some 1, Some 0] \<and>
   t8_cmesh_from_msh_file decimal_scanf False (Some msh_double_blank) 0 2
     = Inr (Some double_blank_mesh) \<and>
   nr_table (projr (t8_msh_file_read_nodes decimal_scanf False (fopen msh_double_blank)))
     = Some triangle_table \<and>
   element_line decimal_scanf double_blank_line = Some (T8_ECLASS_TRIANGLE, [1, 2, 3]) \<and>
   scanned_node_indices decimal_scanf False double_blank_line = Some [1, 1, 2] \<and>
   sc_hash_lookup triangle_table (locidx_of_long ([1, 2, 3] ! 1))
     = Inr (Some \<lparr>index = 2, coordinates = (1, 0, 0)\<rparr>) \<and>
   t8_msh_element_vertex_to_t8_vertex_num T8_ECLASS_TRIANGLE ! 1 = 1 \<and>
   take 3 (drop (3 * 1) (snd (hd (cm_vertices double_blank_mesh)))) \<noteq> [Some 1, Some 0, Some 0]"
  by code_simp

text \<open>
  C1, amended. Let an element line be in order, with the class \<open>c\<close> of the requested
  dimension, let its fields be separated by single blanks (at most \<open>2\<^sup>3\<^sup>1 - 1\<close> fields),
  and let the node table declare the node indices that it lists. Then
  \<^const>\<open>read_element\<close> registers a tree of class \<open>c\<close> with a vertex array of
  \<open>3 * t8_eclass_num_vertices c\<close> entries, and for every slot \<open>i\<close> of the file below the
  vertex count, the three entries of slot \<open>t8_msh_element_vertex_to_t8_vertex_num c ! i\<close>
  of this array are the coordinates that the table holds for the node index that the line
  lists at slot \<open>i\<close>. For a quadrilateral the permutation is \<open>[0, 1, 3, 2]\<close>: slot 3 of
  the tree holds the coordinates of the node listed third, and slot 2 those of the node
  listed fourth. The conversions \<^verbatim>\<open>%i\<close> and \<^verbatim>\<open>%li\<close> read from the first word of their
  input.
\<close>

theorem node_coordinates_at_permuted_slot:
  fixes st :: "'a ele_state"
  assumes "significant (unread (es_fp st)) = l # ls"
    and "word_conversion (scan_int sc)" and "word_conversion (scan_long sc)"
    and "element_line sc l = Some (c, node_indices)"
    and "blank_separated l" and "int (length (fields l)) \<le> INT_MAX"
    and "t8_eclass_to_dimension c = dim"
    and "list_all (declared hash) node_indices"
    and "length (es_tree_vertices st) = 24"
    and "i < t8_eclass_num_vertices c"
    and "sc_hash_lookup hash (locidx_of_long (node_indices ! i)) = Inr (Some n)"
  shows "(\<exists>st' tree_vertices.
       read_element sc dbg (Some hash) dim st = Inr (Some st') \<and>
       cm_classes (es_cmesh st') = cm_classes (es_cmesh st) @ [(es_tree_count st, c)] \<and>
       cm_vertices (es_cmesh st') =
         cm_vertices (es_cmesh st) @ [(es_tree_count st, tree_vertices)] \<and>
       length tree_vertices = 3 * t8_eclass_num_vertices c \<and>
       tree_vertices ! (3 * (t8_msh_element_vertex_to_t8_vertex_num c ! i))
           = Some (fst (coordinates n)) \<and>
       tree_vertices ! (3 * (t8_msh_element_vertex_to_t8_vertex_num c ! i) + 1)
           = Some (fst (snd (coordinates n))) \<and>
       tree_vertices ! (3 * (t8_msh_element_vertex_to_t8_vertex_num c ! i) + 2)
           = Some (snd (snd (coordinates n)))) \<and>
     take 4 (t8_msh_element_vertex_to_t8_vertex_num T8_ECLASS_QUAD) = [0, 1, 3, 2] \<and>
     t8_msh_element_vertex_to_t8_vertex_num T8_ECLASS_QUAD ! 2 = 3
         \<and> t8_msh_element_vertex_to_t8_vertex_num T8_ECLASS_QUAD ! 3 = 2"
proof -
  have ec: "scanned_eclass sc l = Some c"
    by (rule element_line_scanned(1) [OF assms(2,4)])
  have ni: "scanned_node_indices sc dbg l = Some node_indices"
    by (rule element_line_scanned(2) [OF assms(2,4,3,5,6)])
  show ?thesis
    by (rule scanned_node_coordinates [OF assms(1) ec assms(7) ni assms(8-11)])
qed

theorem node_coordinates_at_permuted_slot_witness:
  "significant (unread (es_fp quad_state)) = quad_line # [] \<and>
   word_conversion (scan_int decimal_scanf) \<and> word_conversion (scan_long decimal_scanf) \<and>
   element_line decimal_scanf quad_line = Some (T8_ECLASS_QUAD, [1, 2, 3, 4]) \<and>
   blank_separated quad_line \<and> int (length (fields quad_line)) \<le> INT_MAX \<and>
   t8_eclass_to_dimension T8_ECLASS_QUAD = 2 \<and>
   list_all (declared example_table) [1, 2, 3, 4] \<and>
   length (es_tree_vertices quad_state) = 24 \<and>
   2 < t8_eclass_num_vertices T8_ECLASS_QUAD \<and>
   sc_hash_lookup example_table (locidx_of_long ([1, 2, 3, 4] ! 2))
     = Inr (Some \<lparr>index = 3, coordinates = (1, 1, 0)\<rparr>) \<and>
   map_option (\<lambda>st'. take 3 (drop (3 * 3) (snd (last (cm_vertices (es_cmesh st'))))))
     (projr (read_element decimal_scanf False (Some example_table) 2 quad_state))
     = Some [Some 1, Some 1, Some 0]"
proof -
  have h1: "significant (unread (es_fp quad_state)) = quad_line # []"
    by code_simp
  note h2 = decimal_word_conversion
  have h3: "element_line decimal_scanf quad_line = Some (T8_ECLASS_QUAD, [1, 2, 3, 4])"
    by code_simp
  have h4: "blank_separated quad_line" "int (length (fields quad_line)) \<le> INT_MAX"
    by code_simp+
  have h5: "t8_eclass_to_dimension T8_ECLASS_QUAD = 2"
    by simp
  have h6: "list_all (declared example_table) [1, 2, 3, 4]"
    by code_simp
  have h7: "length (es_tree_vertices quad_state) = 24"
    by (simp add: quad_state_def)
  have h8: "2 < t8_eclass_num_vertices T8_ECLASS_QUAD"
    by simp
  have h9: "sc_hash_lookup example_table (locidx_of_long ([1, 2, 3, 4] ! 2))
     = Inr (Some \<lparr>index = 3, coordinates = (1, 1, 0)\<rparr>)"
    by code_simp
  from node_coordinates_at_permuted_slot [where dbg = False, OF h1 h2 h3 h4 h5 h6 h7 h8 h9]
  obtain st' tree_vertices where
    run: "read_element decimal_scanf False (Some example_table) 2 quad_state = Inr (Some st')"
    and cv: "cm_vertices (es_cmesh st') =
         cm_vertices (es_cmesh quad_state) @ [(es_tree_count quad_state, tree_vertices)]"
    and len: "length tree_vertices = 3 * t8_eclass_num_vertices T8_ECLASS_QUAD"
    and v: "tree_vertices ! 9 = Some 1" "tree_vertices ! 10 = Some 1" "tree_vertices ! 11 = Some 0"
    by auto
  from len have "length tree_vertices = 12" by simp
  then have "take 3 (drop 9 tree_vertices)
      = [tree_vertices ! 9, tree_vertices ! 10, tree_vertices ! 11]"
    by (auto simp: list_eq_iff_nth_eq less_Suc_eq numeral_3_eq_3)
  with v run cv h1 h2 h3 h4 h5 h6 h7 h8 h9 show ?thesis
    by simp
qed

subsection \<open>The check of the type code\<close>












subsection \<open>The loop over the nodes\<close>

lemma hash_positive:
  "0 < n \<Longrightarrow> t8_msh_file_node_hash i n = Inr (nat ((i smod n) mod 2 ^ 32))"
  by (simp add: t8_msh_file_node_hash_def)

lemma insert_unique_fresh:
  assumes "0 < user_data tab" and "index v \<notin> table_indices tab"
  shows "sc_hash_insert_unique tab v =
    Inr (True, tab\<lparr>entries := entries tab @ [(nat ((index v smod user_data tab) mod 2 ^ 32), v)]\<rparr>)"
proof -
  have "find (\<lambda>(h, n). h = nat ((index v smod user_data tab) mod 2 ^ 32)
      \<and> t8_msh_file_node_compare (index n) (index v)) (entries tab) = None"
    using assms(2)
    by (auto simp: find_None_iff table_indices_def t8_msh_file_node_compare_def image_iff)
  then show ?thesis
    using assms(1) by (simp add: sc_hash_insert_unique_def hash_positive)
qed

lemma insert_unique_total:
  assumes "0 < user_data tab"
  shows "\<exists>b tab'. sc_hash_insert_unique tab v = Inr (b, tab') \<and> user_data tab' = user_data tab"
proof (cases "find (\<lambda>(h, n). h = nat ((index v smod user_data tab) mod 2 ^ 32)
      \<and> t8_msh_file_node_compare (index n) (index v)) (entries tab)")
  case None
  with assms have "sc_hash_insert_unique tab v = Inr (True,
      tab\<lparr>entries := entries tab @ [(nat ((index v smod user_data tab) mod 2 ^ 32), v)]\<rparr>)"
    by (simp add: sc_hash_insert_unique_def hash_positive)
  then show ?thesis by auto
next
  case (Some e)
  with assms have "sc_hash_insert_unique tab v = Inr (False, tab)"
    by (simp add: sc_hash_insert_unique_def hash_positive)
  then show ?thesis by auto
qed

lemma read_node_lines_prefix:
  "significant (unread fp) = good @ rest \<Longrightarrow>
   list_all (\<lambda>l. sscanf_node sc l \<noteq> None) good \<Longrightarrow>
   0 < user_data tab \<Longrightarrow>
   (dbg \<longrightarrow> distinct (map (line_node_index sc) good) \<and>
      (\<forall>l\<in>set good. - (2 ^ 63) \<le> line_node_index sc l \<and> line_node_index sc l < 2 ^ 63 \<and>
         line_node_index sc l \<notin> table_indices tab)) \<Longrightarrow>
   \<exists>line' fp' tab'.
     read_node_lines sc dbg (length good + j) line fp tab
         = read_node_lines sc dbg j line' fp' tab' \<and>
     significant (unread fp') = rest \<and> user_data tab' = user_data tab"
proof (induction good arbitrary: line fp tab)
  case Nil
  then show ?case by auto
next
  case (Cons l good)
  from Cons.prems(1) have "significant (unread fp) = l # (good @ rest)" by simp
  from read_next_line_significant [OF this] obtain fp1 where
    rd: "t8_cmesh_msh_read_next_line line fp = (True, Some l, fp1)"
    and sig1: "significant (unread fp1) = good @ rest"
    by blast
  from Cons.prems(2) obtain i xyz where sn: "sscanf_node sc l = Some (i, xyz)"
    and good: "list_all (\<lambda>l. sscanf_node sc l \<noteq> None) good"
    by auto
  let ?Node = "\<lparr>index = locidx_of_long i, coordinates = xyz\<rparr>"
  have li: "line_node_index sc l = i"
    using sn by (simp add: line_node_index_def)
  show ?case
  proof (cases dbg)
    case False
    from insert_unique_total [OF Cons.prems(3), of ?Node] obtain b tab1 where
      ins: "sc_hash_insert_unique tab ?Node = Inr (b, tab1)" and ud: "user_data tab1
          = user_data tab"
      by blast
    have step: "read_node_lines sc dbg (length (l # good) + j) line fp tab
        = read_node_lines sc dbg (length good + j) (Some l) fp1 tab1"
      using rd sn ins False by (simp add: Let_def)
    have "0 < user_data tab1" "dbg \<longrightarrow> distinct (map (line_node_index sc) good) \<and>
      (\<forall>l\<in>set good. - (2 ^ 63) \<le> line_node_index sc l \<and> line_node_index sc l < 2 ^ 63 \<and>
         line_node_index sc l \<notin> table_indices tab1)"
      using ud Cons.prems(3) False by simp_all
    from Cons.IH [OF sig1 good this, of "Some l"]
    obtain line' fp' tab' where
      "read_node_lines sc dbg (length good + j) (Some l) fp1 tab1
         = read_node_lines sc dbg j line' fp' tab'"
      "significant (unread fp') = rest" "user_data tab' = user_data tab1"
      by blast
    with step ud show ?thesis
      by (intro exI [of _ line'] exI [of _ fp'] exI [of _ tab']) simp
  next
    case True
    with Cons.prems(4) li have rng: "- (2 ^ 63) \<le> i" "i < 2 ^ 63"
      and fresh: "i \<notin> table_indices tab"
      and dist: "i \<notin> line_node_index sc ` set good" "distinct (map (line_node_index sc) good)"
      and rest: "\<forall>l\<in>set good. - (2 ^ 63) \<le> line_node_index sc l \<and> line_node_index sc l < 2 ^ 63 \<and>
         line_node_index sc l \<notin> table_indices tab"
      by auto
    have id: "locidx_of_long i = i"
      by (rule locidx_of_long_id [OF rng])
    let ?tab1 = "tab\<lparr>entries := entries tab @ [(nat ((i smod user_data tab) mod 2 ^ 32), ?Node)]\<rparr>"
    have ins: "sc_hash_insert_unique tab ?Node = Inr (True, ?tab1)"
      using insert_unique_fresh [OF Cons.prems(3), of ?Node] fresh id by simp
    have ti: "table_indices ?tab1 = insert i (table_indices tab)"
      by (auto simp: table_indices_def id)
    have "dbg \<longrightarrow> distinct (map (line_node_index sc) good) \<and>
      (\<forall>l\<in>set good. - (2 ^ 63) \<le> line_node_index sc l \<and> line_node_index sc l < 2 ^ 63 \<and>
         line_node_index sc l \<notin> table_indices ?tab1)"
      using dist rest ti by auto
    moreover have "0 < user_data ?tab1"
      using Cons.prems(3) by simp
    ultimately obtain line' fp' tab' where
      "read_node_lines sc dbg (length good + j) (Some l) fp1 ?tab1
         = read_node_lines sc dbg j line' fp' tab'"
      "significant (unread fp') = rest" "user_data tab' = user_data ?tab1"
      using Cons.IH [OF sig1 good, of ?tab1 "Some l"] by blast
    moreover have step: "read_node_lines sc dbg (length (l # good) + j) line fp tab
        = read_node_lines sc dbg (length good + j) (Some l) fp1 ?tab1"
      using rd sn ins id by (simp add: Let_def)
    ultimately show ?thesis
      by (intro exI [of _ line'] exI [of _ fp'] exI [of _ tab']) simp
  qed
qed

lemma read_node_lines_stops:
  assumes "significant (unread fp) = rest"
    and "rest = [] \<or> sscanf_node sc (hd rest) = None"
  shows "\<exists>fp'. read_node_lines sc dbg (Suc j) line fp tab = Inr (None, fp')"
proof (cases rest)
  case Nil
  with assms(1) have "fst (t8_cmesh_msh_read_next_line line fp) = False"
    by (intro read_next_line_no_significant) simp
  then show ?thesis
    by (cases "t8_cmesh_msh_read_next_line line fp") auto
next
  case (Cons b bs)
  with assms have sig: "significant (unread fp) = b # bs" and b: "sscanf_node sc b = None"
    by simp_all
  from read_next_line_significant [OF sig] obtain fp1 where
    "t8_cmesh_msh_read_next_line line fp = (True, Some b, fp1)"
    by blast
  with b show ?thesis by simp
qed


lemma read_nodes_count_line:
  assumes "list_all terminated (butlast (contents fp0))"
    and "significant (contents fp0) = pre @ m # cl # nls"
    and "list_all (\<lambda>p. case sscanf_word p of Inr (Some w) \<Rightarrow> w \<noteq> ''$Nodes'' | _ \<Rightarrow> False) pre"
    and "sscanf_word m = Inr (Some ''$Nodes'')"
  shows "\<exists>fp2. significant (unread fp2) = nls \<and>
     t8_msh_file_read_nodes sc dbg fp0 =
       (case scan_long sc cl of
          None \<Rightarrow>
            Inr \<lparr>nr_table = None, nr_num_nodes = None, nr_mempool = Unallocated,
                 nr_hash = Unallocated, nr_fp = fp2\<rparr>
        | Some (lnum_nodes, r) \<Rightarrow>
            if dbg \<and> locidx_of_long lnum_nodes \<noteq> lnum_nodes then Inl Assertion_Failed
            else (case read_node_lines sc dbg (nat (locidx_of_long lnum_nodes)) (Some cl) fp2
                         (sc_hash_new (locidx_of_long lnum_nodes)) of
               Inl c \<Rightarrow> Inl c
             | Inr (None, fp'') \<Rightarrow>
                 Inr \<lparr>nr_table = None, nr_num_nodes = Some (locidx_of_long lnum_nodes),
                      nr_mempool = Destroyed, nr_hash = Destroyed, nr_fp = fp''\<rparr>
             | Inr (Some node_table, fp'') \<Rightarrow>
                 Inr \<lparr>nr_table = Some node_table, nr_num_nodes = Some (locidx_of_long lnum_nodes),
                      nr_mempool = Live, nr_hash = Live, nr_fp = fp''\<rparr>))"
proof -
  have "significant (unread (fseek0 fp0)) = pre @ m # cl # nls" "\<not> eof (fseek0 fp0)"
    "list_all terminated (butlast (unread (fseek0 fp0)))"
    using assms(1,2) by (simp_all add: fseek0_def)
  from find_section_found [OF this _ assms(3) assms(4), of "[]" None]
  obtain fp1 where fs: "find_section ''$Nodes'' [] None (fseek0 fp0) = Inr (True, Some m, fp1)"
    and sig1: "significant (unread fp1) = cl # nls"
    by auto
  from read_next_line_significant [OF sig1, of "Some m"] obtain fp2 where
    rd: "t8_cmesh_msh_read_next_line (Some m) fp1 = (True, Some cl, fp2)"
    and sig2: "significant (unread fp2) = nls"
    by blast
  have "t8_msh_file_read_nodes sc dbg fp0 =
       (case scan_long sc cl of
          None \<Rightarrow>
            Inr \<lparr>nr_table = None, nr_num_nodes = None, nr_mempool = Unallocated,
                 nr_hash = Unallocated, nr_fp = fp2\<rparr>
        | Some (lnum_nodes, r) \<Rightarrow>
            if dbg \<and> locidx_of_long lnum_nodes \<noteq> lnum_nodes then Inl Assertion_Failed
            else (case read_node_lines sc dbg (nat (locidx_of_long lnum_nodes)) (Some cl) fp2
                         (sc_hash_new (locidx_of_long lnum_nodes)) of
               Inl c \<Rightarrow> Inl c
             | Inr (None, fp'') \<Rightarrow>
                 Inr \<lparr>nr_table = None, nr_num_nodes = Some (locidx_of_long lnum_nodes),
                      nr_mempool = Destroyed, nr_hash = Destroyed, nr_fp = fp''\<rparr>
             | Inr (Some node_table, fp'') \<Rightarrow>
                 Inr \<lparr>nr_table = Some node_table, nr_num_nodes = Some (locidx_of_long lnum_nodes),
                      nr_mempool = Live, nr_hash = Live, nr_fp = fp''\<rparr>))"
    using fs rd by (simp add: t8_msh_file_read_nodes_def Let_def split: option.splits)
  with sig2 show ?thesis by blast
qed

lemma read_node_lines_zero:
  "read_node_lines sc dbg (nat N) line fp tab = Inr (Some tab, fp)" if "N \<le> 0"
  using that by simp

lemma insert_unique_hashed:
  "sc_hash_insert_unique tab v = Inr (b, tab') \<Longrightarrow> hashed_by_index tab \<Longrightarrow>
   user_data tab' = user_data tab \<and> hashed_by_index tab'"
  by (auto simp: sc_hash_insert_unique_def hashed_by_index_def split: sum.splits option.splits)

lemma read_node_lines_hashed:
  "read_node_lines sc dbg k line fp tab = Inr (Some t, fp') \<Longrightarrow> hashed_by_index tab \<Longrightarrow>
   user_data t = user_data tab \<and> hashed_by_index t"
proof (induction k arbitrary: line fp tab)
  case 0
  then show ?case by simp
next
  case (Suc k)
  obtain ok line1 fp1 where rd: "t8_cmesh_msh_read_next_line line fp = (ok, line1, fp1)"
    by (cases "t8_cmesh_msh_read_next_line line fp") blast
  with Suc.prems(1) obtain l i xyz b tab1 where
    ins: "sc_hash_insert_unique tab \<lparr>index = locidx_of_long i, coordinates = xyz\<rparr> = Inr (b, tab1)"
    and rec: "read_node_lines sc dbg k line1 fp1 tab1 = Inr (Some t, fp')"
    by (auto simp: Let_def split: if_splits option.splits sum.splits prod.splits)
  from insert_unique_hashed [OF ins Suc.prems(2)] Suc.IH [OF rec] show ?case
    by simp
qed


lemma insert_unique_duplicate:
  assumes "0 < user_data tab" and "hashed_by_index tab" and "index v \<in> table_indices tab"
  shows "sc_hash_insert_unique tab v = Inr (False, tab)"
proof -
  from assms(3) obtain h n where e: "(h, n) \<in> set (entries tab)" and i: "index n = index v"
    by (auto simp: table_indices_def)
  from assms(2) e have "t8_msh_file_node_hash (index n) (user_data tab) = Inr h"
    by (auto simp: hashed_by_index_def list_all_iff)
  with assms(1) i have h: "h = nat ((index v smod user_data tab) mod 2 ^ 32)"
    by (simp add: hash_positive)
  from e h i have "find (\<lambda>(h, n). h = nat ((index v smod user_data tab) mod 2 ^ 32)
      \<and> t8_msh_file_node_compare (index n) (index v)) (entries tab) \<noteq> None"
    by (auto simp: find_None_iff t8_msh_file_node_compare_def)
  then obtain e' where "find (\<lambda>(h, n). h = nat ((index v smod user_data tab) mod 2 ^ 32)
      \<and> t8_msh_file_node_compare (index n) (index v)) (entries tab) = Some e'"
    by blast
  with assms(1) show ?thesis
    by (simp add: sc_hash_insert_unique_def hash_positive)
qed

lemma locidx_of_long_other: "\<not> (- (2 ^ 63) \<le> x \<and> x < 2 ^ 63) \<Longrightarrow> locidx_of_long x \<noteq> x"
  by (simp add: locidx_of_long_def T8_LOCIDX_BITS_def signed_take_bit_int_eq_self_iff)

lemma read_node_lines_assertion:
  "significant (unread fp) = good @ rest \<Longrightarrow>
   list_all (\<lambda>l. sscanf_node sc l \<noteq> None) good \<Longrightarrow>
   0 < user_data tab \<Longrightarrow> hashed_by_index tab \<Longrightarrow>
   \<not> (distinct (map (line_node_index sc) good) \<and>
      (\<forall>l\<in>set good. - (2 ^ 63) \<le> line_node_index sc l \<and> line_node_index sc l < 2 ^ 63 \<and>
         line_node_index sc l \<notin> table_indices tab)) \<Longrightarrow>
   read_node_lines sc True (length good + j) line fp tab = Inl Assertion_Failed"
proof (induction good arbitrary: line fp tab)
  case Nil
  then show ?case by simp
next
  case (Cons l good)
  from Cons.prems(1) have "significant (unread fp) = l # (good @ rest)" by simp
  from read_next_line_significant [OF this] obtain fp1 where
    rd: "t8_cmesh_msh_read_next_line line fp = (True, Some l, fp1)"
    and sig1: "significant (unread fp1) = good @ rest"
    by blast
  from Cons.prems(2) obtain i xyz where sn: "sscanf_node sc l = Some (i, xyz)"
    and good: "list_all (\<lambda>l. sscanf_node sc l \<noteq> None) good"
    by auto
  let ?Node = "\<lparr>index = locidx_of_long i, coordinates = xyz\<rparr>"
  have li: "line_node_index sc l = i"
    using sn by (simp add: line_node_index_def)
  show ?case
  proof (cases "- (2 ^ 63) \<le> i \<and> i < 2 ^ 63")
    case False
    from locidx_of_long_other [OF this] rd sn show ?thesis
      by (simp add: Let_def)
  next
    case True
    then have id: "locidx_of_long i = i"
      by (simp add: locidx_of_long_id)
    show ?thesis
    proof (cases "i \<in> table_indices tab")
      case True
      then have "sc_hash_insert_unique tab ?Node = Inr (False, tab)"
        using insert_unique_duplicate [OF Cons.prems(3,4), of ?Node] id by simp
      with rd sn id show ?thesis
        by (simp add: Let_def)
    next
      case False
      let ?tab1 = "tab\<lparr>entries := entries tab
          @ [(nat ((i smod user_data tab) mod 2 ^ 32), ?Node)]\<rparr>"
      have ins: "sc_hash_insert_unique tab ?Node = Inr (True, ?tab1)"
        using insert_unique_fresh [OF Cons.prems(3), of ?Node] False id by simp
      have ti: "table_indices ?tab1 = insert i (table_indices tab)"
        by (auto simp: table_indices_def id)
      have pos: "0 < user_data ?tab1" using Cons.prems(3) by simp
      have hs: "hashed_by_index ?tab1"
        using insert_unique_hashed [OF ins Cons.prems(4)] by simp
      have "\<not> (distinct (map (line_node_index sc) good) \<and>
        (\<forall>l\<in>set good. - (2 ^ 63) \<le> line_node_index sc l \<and> line_node_index sc l < 2 ^ 63 \<and>
           line_node_index sc l \<notin> table_indices ?tab1))"
        using Cons.prems(5) li True False ti by auto
      from Cons.IH [OF sig1 good pos hs this, of "Some l"] rd sn ins id show ?thesis
        by (simp add: Let_def)
    qed
  qed
qed

lemma node_build_cleanup:
  assumes "list_all terminated (butlast (contents fp0))"
    and "significant (contents fp0) = pre @ m # cl # good @ rest"
    and "list_all (\<lambda>p. case sscanf_word p of Inr (Some w) \<Rightarrow> w \<noteq> ''$Nodes'' | _ \<Rightarrow> False) pre"
    and "sscanf_word m = Inr (Some ''$Nodes'')"
    and "scan_long sc cl = Some (N, r)" and "- (2 ^ 63) \<le> N" and "N < 2 ^ 63"
    and "length good < nat N"
    and "list_all (\<lambda>l. sscanf_node sc l \<noteq> None) good"
    and "dbg \<longrightarrow> distinct (map (line_node_index sc) good) \<and>
      (\<forall>l\<in>set good. - (2 ^ 63) \<le> line_node_index sc l \<and> line_node_index sc l < 2 ^ 63)"
    and "rest = [] \<or> sscanf_node sc (hd rest) = None"
  shows "\<exists>fp'. t8_msh_file_read_nodes sc dbg fp0 =
     Inr \<lparr>nr_table = None, nr_num_nodes = Some N, nr_mempool = Destroyed,
          nr_hash = Destroyed, nr_fp = fp'\<rparr>"
proof -
  have N: "locidx_of_long N = N"
    by (rule locidx_of_long_id [OF assms(6,7)])
  from read_nodes_count_line [OF assms(1-4), of sc dbg] obtain fp2 where
    sig2: "significant (unread fp2) = good @ rest"
    and eq: "t8_msh_file_read_nodes sc dbg fp0 =
       (case scan_long sc cl of
          None \<Rightarrow>
            Inr \<lparr>nr_table = None, nr_num_nodes = None, nr_mempool = Unallocated,
                 nr_hash = Unallocated, nr_fp = fp2\<rparr>
        | Some (lnum_nodes, r) \<Rightarrow>
            if dbg \<and> locidx_of_long lnum_nodes \<noteq> lnum_nodes then Inl Assertion_Failed
            else (case read_node_lines sc dbg (nat (locidx_of_long lnum_nodes)) (Some cl) fp2
                         (sc_hash_new (locidx_of_long lnum_nodes)) of
               Inl c \<Rightarrow> Inl c
             | Inr (None, fp'') \<Rightarrow>
                 Inr \<lparr>nr_table = None, nr_num_nodes = Some (locidx_of_long lnum_nodes),
                      nr_mempool = Destroyed, nr_hash = Destroyed, nr_fp = fp''\<rparr>
             | Inr (Some node_table, fp'') \<Rightarrow>
                 Inr \<lparr>nr_table = Some node_table, nr_num_nodes = Some (locidx_of_long lnum_nodes),
                      nr_mempool = Live, nr_hash = Live, nr_fp = fp''\<rparr>))"
    by blast
  have pos: "0 < user_data (sc_hash_new N :: 'a sc_hash)"
    using assms(8) by (simp add: sc_hash_new_def)
  have d: "dbg \<longrightarrow> distinct (map (line_node_index sc) good) \<and>
      (\<forall>l\<in>set good. - (2 ^ 63) \<le> line_node_index sc l \<and> line_node_index sc l < 2 ^ 63 \<and>
         line_node_index sc l \<notin> table_indices (sc_hash_new N :: 'a sc_hash))"
    using assms(10) by (simp add: table_indices_def sc_hash_new_def)
  from read_node_lines_prefix [where j = "Suc (nat N - Suc (length good))" and line = "Some cl",
      OF sig2 assms(9) pos d]
  obtain line' fp' and tab' :: "'a sc_hash" where
    pre: "read_node_lines sc dbg (length good + Suc (nat N - Suc (length good))) (Some cl) fp2
        (sc_hash_new N) = read_node_lines sc dbg (Suc (nat N - Suc (length good))) line' fp' tab'"
    and sig': "significant (unread fp') = rest"
    by blast
  from read_node_lines_stops [where j = "nat N - Suc (length good)" and line = line'
      and tab = tab' and dbg = dbg, OF sig' assms(11)]
  obtain fp'' where "read_node_lines sc dbg (Suc (nat N - Suc (length good))) line' fp' tab'
      = Inr (None, fp'')"
    by blast
  moreover have "length good + Suc (nat N - Suc (length good)) = nat N"
    using assms(8) by simp
  ultimately have "read_node_lines sc dbg (nat N) (Some cl) fp2 (sc_hash_new N :: 'a sc_hash)
      = Inr (None, fp'')"
    using pre by simp
  with eq assms(5) N show ?thesis by simp
qed

text \<open>
  C7, as the claim states it, fails for a node line with more than four fields:
  \<^verbatim>\<open>sscanf\<close> converts the first four and returns 4, the fifth field is not read, and the
  build succeeds with the node in the table.
\<close>

theorem five_fields_counterexample:
  "sscanf_node decimal_scanf ''1 0 0 0 9\<newline>'' = Some (1, 0, 0, 0) \<and>
   map_sum id nr_table (t8_msh_file_read_nodes decimal_scanf False (fopen msh_five_fields))
     = Inr (Some \<lparr>user_data = 1, entries = [(0, \<lparr>index = 1, coordinates = (0, 0, 0)\<rparr>)]\<rparr>) \<and>
   map_sum id nr_table (t8_msh_file_read_nodes decimal_scanf True (fopen msh_five_fields))
     = Inr (Some \<lparr>user_data = 1, entries = [(0, \<lparr>index = 1, coordinates = (0, 0, 0)\<rparr>)]\<rparr>)"
  by code_simp

text \<open>
  C7, amended. Let the stream hold the marker line \<^verbatim>\<open>$Nodes\<close>, a count line with the
  count \<open>N\<close> and, behind fewer than \<open>N\<close> node lines with four fields that convert, either
  no further line or a line from which \<^verbatim>\<open>sscanf\<close> does not convert an index and three
  coordinates. Then \<^verbatim>\<open>t8_msh_file_read_nodes\<close> returns NULL, and the hash table and the
  pool of the nodes that it allocated are destroyed: no table and no pool is left. There
  is one exception, in a debugging build: when two of the node lines before carry the
  same index, or one an index that does not fit the index type, an assertion stops the
  run at that line, before the function returns an error or destroys anything.
\<close>

theorem node_build_all_or_nothing:
  assumes "list_all terminated (butlast (contents fp0))"
    and "significant (contents fp0) = pre @ m # cl # good @ rest"
    and "list_all (\<lambda>p. case sscanf_word p of Inr (Some w) \<Rightarrow> w \<noteq> ''$Nodes'' | _ \<Rightarrow> False) pre"
    and "sscanf_word m = Inr (Some ''$Nodes'')"
    and "scan_long sc cl = Some (N, r)" and "- (2 ^ 63) \<le> N" and "N < 2 ^ 63"
    and "length good < nat N"
    and "list_all (\<lambda>l. sscanf_node sc l \<noteq> None) good"
    and "rest = [] \<or> sscanf_node sc (hd rest) = None"
  shows "if dbg \<and> \<not> (distinct (map (line_node_index sc) good) \<and>
            list_all (\<lambda>l. - (2 ^ 63) \<le> line_node_index sc l \<and> line_node_index sc l < 2 ^ 63) good)
     then t8_msh_file_read_nodes sc dbg fp0 = Inl Assertion_Failed
     else (\<exists>fp'. t8_msh_file_read_nodes sc dbg fp0 =
       Inr \<lparr>nr_table = None, nr_num_nodes = Some N, nr_mempool = Destroyed,
            nr_hash = Destroyed, nr_fp = fp'\<rparr>)"
proof (cases "dbg \<and> \<not> (distinct (map (line_node_index sc) good) \<and>
            list_all (\<lambda>l. - (2 ^ 63) \<le> line_node_index sc l \<and> line_node_index sc l < 2 ^ 63) good)")
  case False
  then have "dbg \<longrightarrow> distinct (map (line_node_index sc) good) \<and>
      (\<forall>l\<in>set good. - (2 ^ 63) \<le> line_node_index sc l \<and> line_node_index sc l < 2 ^ 63)"
    by (auto simp: list_all_iff)
  from node_build_cleanup [OF assms(1-9) this assms(10)] show ?thesis
    by (simp only: if_not_P [OF False])
next
  case True
  then have dbg: dbg
    and bad: "\<not> (distinct (map (line_node_index sc) good) \<and>
            list_all (\<lambda>l. - (2 ^ 63) \<le> line_node_index sc l \<and> line_node_index sc l < 2 ^ 63) good)"
    by simp_all
  have N: "locidx_of_long N = N"
    by (rule locidx_of_long_id [OF assms(6,7)])
  from read_nodes_count_line [OF assms(1-4), of sc dbg] obtain fp2 where
    sig2: "significant (unread fp2) = good @ rest"
    and eq: "t8_msh_file_read_nodes sc dbg fp0 =
       (case scan_long sc cl of
          None \<Rightarrow>
            Inr \<lparr>nr_table = None, nr_num_nodes = None, nr_mempool = Unallocated,
                 nr_hash = Unallocated, nr_fp = fp2\<rparr>
        | Some (lnum_nodes, r) \<Rightarrow>
            if dbg \<and> locidx_of_long lnum_nodes \<noteq> lnum_nodes then Inl Assertion_Failed
            else (case read_node_lines sc dbg (nat (locidx_of_long lnum_nodes)) (Some cl) fp2
                         (sc_hash_new (locidx_of_long lnum_nodes)) of
               Inl c \<Rightarrow> Inl c
             | Inr (None, fp'') \<Rightarrow>
                 Inr \<lparr>nr_table = None, nr_num_nodes = Some (locidx_of_long lnum_nodes),
                      nr_mempool = Destroyed, nr_hash = Destroyed, nr_fp = fp''\<rparr>
             | Inr (Some node_table, fp'') \<Rightarrow>
                 Inr \<lparr>nr_table = Some node_table, nr_num_nodes = Some (locidx_of_long lnum_nodes),
                      nr_mempool = Live, nr_hash = Live, nr_fp = fp''\<rparr>))"
    by blast
  have pos: "0 < user_data (sc_hash_new N :: 'a sc_hash)"
    using assms(8) by (simp add: sc_hash_new_def)
  have hs: "hashed_by_index (sc_hash_new N :: 'a sc_hash)"
    by (simp add: hashed_by_index_def sc_hash_new_def)
  have b: "\<not> (distinct (map (line_node_index sc) good) \<and>
      (\<forall>l\<in>set good. - (2 ^ 63) \<le> line_node_index sc l \<and> line_node_index sc l < 2 ^ 63 \<and>
         line_node_index sc l \<notin> table_indices (sc_hash_new N :: 'a sc_hash)))"
    using bad by (auto simp: list_all_iff table_indices_def sc_hash_new_def)
  from read_node_lines_assertion [where j = "Suc (nat N - Suc (length good))"
      and line = "Some cl", OF sig2 assms(9) pos hs b]
  have "read_node_lines sc True (length good + Suc (nat N - Suc (length good))) (Some cl) fp2
      (sc_hash_new N :: 'a sc_hash) = Inl Assertion_Failed" .
  moreover have "length good + Suc (nat N - Suc (length good)) = nat N"
    using assms(8) by simp
  ultimately have "read_node_lines sc dbg (nat N) (Some cl) fp2 (sc_hash_new N :: 'a sc_hash)
      = Inl Assertion_Failed"
    using dbg by simp
  with eq assms(5) N dbg have "t8_msh_file_read_nodes sc dbg fp0 = Inl Assertion_Failed"
    by simp
  then show ?thesis
    by (simp only: if_P [OF True])
qed

theorem node_build_all_or_nothing_witness:
  "list_all terminated (butlast (contents (fopen msh_short_node))) \<and>
   significant (contents (fopen msh_short_node)) =
     [] @ ''$Nodes\<newline>'' # ''3\<newline>'' # [''1 0 0 0\<newline>'']
       @ [''2 1 0\<newline>'', ''3 0 1 0\<newline>'', ''$EndNodes\<newline>''] \<and>
   sscanf_word ''$Nodes\<newline>'' = Inr (Some ''$Nodes'') \<and>
   scan_long decimal_scanf ''3\<newline>'' = Some (3, ''\<newline>'') \<and>
   length [''1 0 0 0\<newline>''] < nat 3 \<and>
   list_all (\<lambda>l. sscanf_node decimal_scanf l \<noteq> None) [''1 0 0 0\<newline>''] \<and>
   sscanf_node decimal_scanf (hd [''2 1 0\<newline>'', ''3 0 1 0\<newline>'', ''$EndNodes\<newline>'']) = None \<and>
   map (line_node_index decimal_scanf) [''1 0 0 0\<newline>''] = [1] \<and>
   map_sum id (\<lambda>res. (nr_table res, nr_num_nodes res, nr_mempool res, nr_hash res))
     (t8_msh_file_read_nodes decimal_scanf True (fopen msh_short_node))
     = Inr (None, Some 3, Destroyed, Destroyed) \<and>
   significant (contents (fopen msh_missing_nodes)) =
     [] @ ''$Nodes\<newline>'' # ''3\<newline>'' # [''1 0 0 0\<newline>''] @ [] \<and>
   map_sum id (\<lambda>res. (nr_table res, nr_num_nodes res, nr_mempool res, nr_hash res))
     (t8_msh_file_read_nodes decimal_scanf True (fopen msh_missing_nodes))
     = Inr (None, Some 3, Destroyed, Destroyed) \<and>
   significant (contents (fopen msh_duplicate_short)) =
     [] @ ''$Nodes\<newline>'' # ''3\<newline>'' # [''1 0 0 0\<newline>'', ''1 5 5 5\<newline>''] @ [''2 1 0\<newline>''] \<and>
   length [''1 0 0 0\<newline>'', ''1 5 5 5\<newline>''] < nat 3 \<and>
   list_all (\<lambda>l. sscanf_node decimal_scanf l \<noteq> None) [''1 0 0 0\<newline>'', ''1 5 5 5\<newline>''] \<and>
   sscanf_node decimal_scanf (hd [''2 1 0\<newline>'']) = None \<and>
   map (line_node_index decimal_scanf) [''1 0 0 0\<newline>'', ''1 5 5 5\<newline>''] = [1, 1] \<and>
   t8_msh_file_read_nodes decimal_scanf True (fopen msh_duplicate_short)
     = Inl Assertion_Failed \<and>
   map_sum id (\<lambda>res. (nr_table res, nr_num_nodes res, nr_mempool res, nr_hash res))
     (t8_msh_file_read_nodes decimal_scanf False (fopen msh_duplicate_short))
     = Inr (None, Some 3, Destroyed, Destroyed)"
proof -
  have h1: "list_all terminated (butlast (contents (fopen msh_short_node)))"
    "list_all terminated (butlast (contents (fopen msh_missing_nodes)))"
    "list_all terminated (butlast (contents (fopen msh_duplicate_short)))"
    by (simp_all add: fopen_def lines_of_terminated)
  have h2: "significant (contents (fopen msh_short_node)) =
     [] @ ''$Nodes\<newline>'' # ''3\<newline>'' # [''1 0 0 0\<newline>'']
       @ [''2 1 0\<newline>'', ''3 0 1 0\<newline>'', ''$EndNodes\<newline>'']"
    by code_simp
  have h2': "significant (contents (fopen msh_missing_nodes)) =
     [] @ ''$Nodes\<newline>'' # ''3\<newline>'' # [''1 0 0 0\<newline>''] @ []"
    by code_simp
  have h2'': "significant (contents (fopen msh_duplicate_short)) =
     [] @ ''$Nodes\<newline>'' # ''3\<newline>'' # [''1 0 0 0\<newline>'', ''1 5 5 5\<newline>''] @ [''2 1 0\<newline>'']"
    by code_simp
  have h3: "list_all (\<lambda>p. case sscanf_word p of Inr (Some w) \<Rightarrow> w \<noteq> ''$Nodes'' | _ \<Rightarrow> False) []"
    by simp
  have h4: "sscanf_word ''$Nodes\<newline>'' = Inr (Some ''$Nodes'')"
    by code_simp
  have h5: "scan_long decimal_scanf ''3\<newline>'' = Some (3, ''\<newline>'')"
    by code_simp
  have h8: "length [''1 0 0 0\<newline>''] < nat 3" "length [''1 0 0 0\<newline>'', ''1 5 5 5\<newline>''] < nat 3"
    by simp_all
  have h9: "list_all (\<lambda>l. sscanf_node decimal_scanf l \<noteq> None) [''1 0 0 0\<newline>'']"
    "list_all (\<lambda>l. sscanf_node decimal_scanf l \<noteq> None) [''1 0 0 0\<newline>'', ''1 5 5 5\<newline>'']"
    by code_simp+
  have h10a: "sscanf_node decimal_scanf (hd [''2 1 0\<newline>'', ''3 0 1 0\<newline>'', ''$EndNodes\<newline>'']) = None"
    "sscanf_node decimal_scanf (hd [''2 1 0\<newline>'']) = None"
    by code_simp+
  then have h10: "[''2 1 0\<newline>'', ''3 0 1 0\<newline>'', ''$EndNodes\<newline>''] = [] \<or>
      sscanf_node decimal_scanf (hd [''2 1 0\<newline>'', ''3 0 1 0\<newline>'', ''$EndNodes\<newline>'']) = None"
    "[''2 1 0\<newline>''] = [] \<or> sscanf_node decimal_scanf (hd [''2 1 0\<newline>'']) = None"
    by simp_all
  have h10': "([] :: string list) = [] \<or> sscanf_node decimal_scanf (hd []) = None"
    by simp
  have i1: "map (line_node_index decimal_scanf) [''1 0 0 0\<newline>''] = [1]"
    by code_simp
  have i2: "map (line_node_index decimal_scanf) [''1 0 0 0\<newline>'', ''1 5 5 5\<newline>''] = [1, 1]"
    by code_simp
  from i1 have r1: "line_node_index decimal_scanf ''1 0 0 0\<newline>'' = 1"
    by simp
  from node_build_all_or_nothing [OF h1(1) h2 h3 h4 h5 _ _ h8(1) h9(1) h10(1), of True]
  have A: "map_sum id (\<lambda>res. (nr_table res, nr_num_nodes res, nr_mempool res, nr_hash res))
     (t8_msh_file_read_nodes decimal_scanf True (fopen msh_short_node))
     = Inr (None, Some 3, Destroyed, Destroyed)"
    by (auto simp: r1)
  from node_build_all_or_nothing [OF h1(2) h2' h3 h4 h5 _ _ h8(1) h9(1) h10', of True]
  have B: "map_sum id (\<lambda>res. (nr_table res, nr_num_nodes res, nr_mempool res, nr_hash res))
     (t8_msh_file_read_nodes decimal_scanf True (fopen msh_missing_nodes))
     = Inr (None, Some 3, Destroyed, Destroyed)"
    by (auto simp: r1)
  from node_build_all_or_nothing [OF h1(3) h2'' h3 h4 h5 _ _ h8(2) h9(2) h10(2), of True]
  have C: "t8_msh_file_read_nodes decimal_scanf True (fopen msh_duplicate_short)
     = Inl Assertion_Failed"
    using i2 by simp
  from node_build_all_or_nothing [OF h1(3) h2'' h3 h4 h5 _ _ h8(2) h9(2) h10(2), of False]
  have D: "map_sum id (\<lambda>res. (nr_table res, nr_num_nodes res, nr_mempool res, nr_hash res))
     (t8_msh_file_read_nodes decimal_scanf False (fopen msh_duplicate_short))
     = Inr (None, Some 3, Destroyed, Destroyed)"
    by auto
  from A B C D h1 h2 h2' h2'' h4 h5 h8 h9 h10a i1 i2 show ?thesis
    by simp
qed

text \<open>
  C8, as the claim states it, fails for a negative count: the reader does not look at the
  sign of the count. For the count \<open>- 5\<close> the loop over the nodes does not run, and the
  build returns an empty table.
\<close>

theorem negative_count_counterexample:
  "scan_long decimal_scanf ''-5\<newline>'' = Some (- 5, ''\<newline>'') \<and>
   map_sum id nr_table (t8_msh_file_read_nodes decimal_scanf True (fopen msh_negative_count))
     = Inr (Some \<lparr>user_data = - 5, entries = []\<rparr>) \<and>
   map_sum id nr_num_nodes (t8_msh_file_read_nodes decimal_scanf True (fopen msh_negative_count))
     = Inr (Some (- 5)) \<and>
   map_sum id nr_mempool (t8_msh_file_read_nodes decimal_scanf True (fopen msh_negative_count))
     = Inr Live \<and>
   map_sum id nr_hash (t8_msh_file_read_nodes decimal_scanf True (fopen msh_negative_count))
     = Inr Live"
  by code_simp

text \<open>
  C8, amended. When the line behind the marker line \<^verbatim>\<open>$Nodes\<close> does not convert to an
  integer, \<^verbatim>\<open>t8_msh_file_read_nodes\<close> returns NULL, before it allocates the pool and the
  table. A build that returns a table has converted this line to an integer, which is the
  number of nodes that it returns; the integer may be negative or zero, and the build
  then returns the empty table.
\<close>

theorem node_count_line:
  assumes "list_all terminated (butlast (contents fp0))"
    and "significant (contents fp0) = pre @ m # cl # nls"
    and "list_all (\<lambda>p. case sscanf_word p of Inr (Some w) \<Rightarrow> w \<noteq> ''$Nodes'' | _ \<Rightarrow> False) pre"
    and "sscanf_word m = Inr (Some ''$Nodes'')"
  shows "(scan_long sc cl = None \<longrightarrow>
      (\<exists>fp'. t8_msh_file_read_nodes sc dbg fp0 =
         Inr \<lparr>nr_table = None, nr_num_nodes = None, nr_mempool = Unallocated,
              nr_hash = Unallocated, nr_fp = fp'\<rparr>)) \<and>
    (\<forall>res. t8_msh_file_read_nodes sc dbg fp0 = Inr res \<and> nr_table res \<noteq> None \<longrightarrow>
       (\<exists>N r. scan_long sc cl = Some (N, r) \<and> nr_num_nodes res = Some (locidx_of_long N))) \<and>
    (\<forall>N r. scan_long sc cl = Some (N, r) \<and> - (2 ^ 63) \<le> N \<and> N \<le> 0 \<longrightarrow>
       (\<exists>fp'. t8_msh_file_read_nodes sc dbg fp0 =
         Inr \<lparr>nr_table = Some (sc_hash_new N), nr_num_nodes = Some N, nr_mempool = Live,
              nr_hash = Live, nr_fp = fp'\<rparr>))"
proof -
  from read_nodes_count_line [OF assms, of sc dbg] obtain fp2 where
    eq: "t8_msh_file_read_nodes sc dbg fp0 =
       (case scan_long sc cl of
          None \<Rightarrow>
            Inr \<lparr>nr_table = None, nr_num_nodes = None, nr_mempool = Unallocated,
                 nr_hash = Unallocated, nr_fp = fp2\<rparr>
        | Some (lnum_nodes, r) \<Rightarrow>
            if dbg \<and> locidx_of_long lnum_nodes \<noteq> lnum_nodes then Inl Assertion_Failed
            else (case read_node_lines sc dbg (nat (locidx_of_long lnum_nodes)) (Some cl) fp2
                         (sc_hash_new (locidx_of_long lnum_nodes)) of
               Inl c \<Rightarrow> Inl c
             | Inr (None, fp'') \<Rightarrow>
                 Inr \<lparr>nr_table = None, nr_num_nodes = Some (locidx_of_long lnum_nodes),
                      nr_mempool = Destroyed, nr_hash = Destroyed, nr_fp = fp''\<rparr>
             | Inr (Some node_table, fp'') \<Rightarrow>
                 Inr \<lparr>nr_table = Some node_table, nr_num_nodes = Some (locidx_of_long lnum_nodes),
                      nr_mempool = Live, nr_hash = Live, nr_fp = fp''\<rparr>))"
    by blast
  show ?thesis
  proof (intro conjI allI impI)
    assume "scan_long sc cl = None"
    with eq show "\<exists>fp'. t8_msh_file_read_nodes sc dbg fp0 =
         Inr \<lparr>nr_table = None, nr_num_nodes = None, nr_mempool = Unallocated,
              nr_hash = Unallocated, nr_fp = fp'\<rparr>"
      by simp
  next
    fix res :: "'a nodes_result"
    assume "t8_msh_file_read_nodes sc dbg fp0 = Inr res \<and> nr_table res \<noteq> None"
    with eq show "\<exists>N r. scan_long sc cl = Some (N, r) \<and> nr_num_nodes res = Some (locidx_of_long N)"
      by (auto split: option.splits if_splits sum.splits prod.splits)
  next
    fix N r
    assume a: "scan_long sc cl = Some (N, r) \<and> - (2 ^ 63) \<le> N \<and> N \<le> 0"
    then have N: "locidx_of_long N = N"
      by (intro locidx_of_long_id) simp_all
    from a have "read_node_lines sc dbg (nat N) (Some cl) fp2 (sc_hash_new N :: 'a sc_hash)
        = Inr (Some (sc_hash_new N), fp2)"
      by simp
    with eq a N show "\<exists>fp'. t8_msh_file_read_nodes sc dbg fp0 =
         Inr \<lparr>nr_table = Some (sc_hash_new N), nr_num_nodes = Some N, nr_mempool = Live,
              nr_hash = Live, nr_fp = fp'\<rparr>"
      by simp
  qed
qed


theorem node_count_line_witness:
  "list_all terminated (butlast (contents (fopen msh_bad_count))) \<and>
   significant (contents (fopen msh_bad_count)) = [] @ ''$Nodes\<newline>'' # ''three\<newline>'' # [''1 0 0 0\<newline>''] \<and>
   sscanf_word ''$Nodes\<newline>'' = Inr (Some ''$Nodes'') \<and>
   scan_long decimal_scanf ''three\<newline>'' = None \<and>
   map_sum id (\<lambda>res. (nr_table res, nr_num_nodes res, nr_mempool res, nr_hash res))
     (t8_msh_file_read_nodes decimal_scanf True (fopen msh_bad_count))
     = Inr (None, None, Unallocated, Unallocated) \<and>
   significant (contents (fopen msh_negative_count)) = []
       @ ''$Nodes\<newline>'' # ''-5\<newline>'' # [''$EndNodes\<newline>''] \<and>
   scan_long decimal_scanf ''-5\<newline>'' = Some (- 5, ''\<newline>'') \<and>
   - (2 ^ 63) \<le> (- 5 :: int) \<and> (- 5 :: int) \<le> 0 \<and>
   map_sum id (\<lambda>res. (nr_table res, nr_num_nodes res, nr_mempool res, nr_hash res))
     (t8_msh_file_read_nodes decimal_scanf True (fopen msh_negative_count))
     = Inr (Some (sc_hash_new (- 5)), Some (- 5), Live, Live)"
proof -
  have h1: "list_all terminated (butlast (contents (fopen msh_bad_count)))"
    "list_all terminated (butlast (contents (fopen msh_negative_count)))"
    by (simp_all add: fopen_def lines_of_terminated)
  have h2: "significant (contents (fopen msh_bad_count)) =
      [] @ ''$Nodes\<newline>'' # ''three\<newline>'' # [''1 0 0 0\<newline>'']"
    by code_simp
  have h2': "significant (contents (fopen msh_negative_count)) =
      [] @ ''$Nodes\<newline>'' # ''-5\<newline>'' # [''$EndNodes\<newline>'']"
    by code_simp
  have h3: "list_all (\<lambda>p. case sscanf_word p of Inr (Some w) \<Rightarrow> w \<noteq> ''$Nodes'' | _ \<Rightarrow> False) []"
    by simp
  have h4: "sscanf_word ''$Nodes\<newline>'' = Inr (Some ''$Nodes'')"
    by code_simp
  have h5: "scan_long decimal_scanf ''three\<newline>'' = None"
    by code_simp
  have h5': "scan_long decimal_scanf ''-5\<newline>'' = Some (- 5, ''\<newline>'')"
    by code_simp
  from node_count_line [OF h1(1) h2 h3 h4, of decimal_scanf True] h5
  have A: "map_sum id (\<lambda>res. (nr_table res, nr_num_nodes res, nr_mempool res, nr_hash res))
     (t8_msh_file_read_nodes decimal_scanf True (fopen msh_bad_count))
     = Inr (None, None, Unallocated, Unallocated)"
    by auto
  from node_count_line [OF h1(2) h2' h3 h4, of decimal_scanf True] h5'
  have "\<exists>fp'. t8_msh_file_read_nodes decimal_scanf True (fopen msh_negative_count) =
         Inr \<lparr>nr_table = Some (sc_hash_new (- 5)), nr_num_nodes = Some (- 5), nr_mempool = Live,
              nr_hash = Live, nr_fp = fp'\<rparr>"
    by simp
  then have B: "map_sum id (\<lambda>res. (nr_table res, nr_num_nodes res, nr_mempool res, nr_hash res))
     (t8_msh_file_read_nodes decimal_scanf True (fopen msh_negative_count))
     = Inr (Some (sc_hash_new (- 5)), Some (- 5), Live, Live)"
    by auto
  from A B h1 h2 h2' h4 h5 h5' show ?thesis
    by simp
qed

text \<open>
  C10. The table that \<^verbatim>\<open>t8_msh_file_read_nodes\<close> returns carries the count \<open>N\<close> of the
  count line as the datum of its hash function, and each of its entries is stored under
  the hash value of its index for \<open>N\<close>; a lookup hashes its key for \<open>N\<close> as well. The hash
  value is the index modulo \<open>N\<close> (the remainder of C, as an \<^verbatim>\<open>unsigned\<close>) when \<open>N\<close> is not
  zero, and a division by zero when it is. A file that declares zero nodes still gives an
  empty table, and the lookup of the first node of an element then divides by zero.
\<close>

theorem node_hash_modulo_node_count:
  fixes tv :: "'a option list"
  assumes "list_all terminated (butlast (contents fp0))"
    and "significant (contents fp0) = pre @ m # cl # nls"
    and "list_all (\<lambda>p. case sscanf_word p of Inr (Some w) \<Rightarrow> w \<noteq> ''$Nodes'' | _ \<Rightarrow> False) pre"
    and "sscanf_word m = Inr (Some ''$Nodes'')"
    and "scan_long sc cl = Some (N, r)" and "- (2 ^ 63) \<le> N" and "N < 2 ^ 63"
  shows "(\<forall>res t. t8_msh_file_read_nodes sc dbg fp0 = Inr res \<and> nr_table res = Some t \<longrightarrow>
        user_data t = N \<and>
        list_all (\<lambda>(h, n). t8_msh_file_node_hash (index n) N = Inr h) (entries t)) \<and>
    (\<forall>t :: 'a sc_hash. user_data t = N \<longrightarrow>
       sc_hash_lookup t v =
         (case t8_msh_file_node_hash v N of
            Inl c \<Rightarrow> Inl c
          | Inr h \<Rightarrow> Inr (map_option snd (find (\<lambda>(h', n). h' = h \<and> index n = v) (entries t))))) \<and>
    (N \<noteq> 0 \<and> \<not> (i = - (2 ^ 63) \<and> N = - 1) \<longrightarrow>
       t8_msh_file_node_hash i N = Inr (nat ((i smod N) mod 2 ^ 32))) \<and>
    (N = 0 \<longrightarrow>
       t8_msh_file_node_hash i N = Inl Div_By_Zero \<and>
       (\<exists>fp'. t8_msh_file_read_nodes sc dbg fp0 =
          Inr \<lparr>nr_table = Some (sc_hash_new 0), nr_num_nodes = Some 0, nr_mempool = Live,
               nr_hash = Live, nr_fp = fp'\<rparr>) \<and>
       fill_tree_vertices (Some (sc_hash_new 0)) c j (x # xs) found tv = Inl Div_By_Zero)"
proof -
  have N: "locidx_of_long N = N"
    by (rule locidx_of_long_id [OF assms(6,7)])
  from read_nodes_count_line [OF assms(1-4), of sc dbg] obtain fp2 where
    eq: "t8_msh_file_read_nodes sc dbg fp0 =
       (case scan_long sc cl of
          None \<Rightarrow>
            Inr \<lparr>nr_table = None, nr_num_nodes = None, nr_mempool = Unallocated,
                 nr_hash = Unallocated, nr_fp = fp2\<rparr>
        | Some (lnum_nodes, r) \<Rightarrow>
            if dbg \<and> locidx_of_long lnum_nodes \<noteq> lnum_nodes then Inl Assertion_Failed
            else (case read_node_lines sc dbg (nat (locidx_of_long lnum_nodes)) (Some cl) fp2
                         (sc_hash_new (locidx_of_long lnum_nodes)) of
               Inl c \<Rightarrow> Inl c
             | Inr (None, fp'') \<Rightarrow>
                 Inr \<lparr>nr_table = None, nr_num_nodes = Some (locidx_of_long lnum_nodes),
                      nr_mempool = Destroyed, nr_hash = Destroyed, nr_fp = fp''\<rparr>
             | Inr (Some node_table, fp'') \<Rightarrow>
                 Inr \<lparr>nr_table = Some node_table, nr_num_nodes = Some (locidx_of_long lnum_nodes),
                      nr_mempool = Live, nr_hash = Live, nr_fp = fp''\<rparr>))"
    by blast
  show ?thesis
  proof (intro conjI allI impI)
    fix res :: "'b nodes_result" and t
    assume a: "t8_msh_file_read_nodes sc dbg fp0 = Inr res \<and> nr_table res = Some t"
    with eq assms(5) N obtain fp'' where
      "read_node_lines sc dbg (nat N) (Some cl) fp2 (sc_hash_new N) = Inr (Some t, fp'')"
      by (auto split: sum.splits option.splits prod.splits)
    moreover have "hashed_by_index (sc_hash_new N :: 'b sc_hash)"
      by (simp add: hashed_by_index_def sc_hash_new_def)
    ultimately have h: "user_data t = N" "hashed_by_index t"
      using read_node_lines_hashed [of sc dbg "nat N" "Some cl" fp2 "sc_hash_new N" t fp'']
      by (simp_all add: sc_hash_new_def)
    show "user_data t = N" by (rule h(1))
    show "list_all (\<lambda>(h, n). t8_msh_file_node_hash (index n) N = Inr h) (entries t)"
      using h(2) unfolding hashed_by_index_def h(1) .
  next
    fix t :: "'a sc_hash"
    assume "user_data t = N"
    then show "sc_hash_lookup t v =
         (case t8_msh_file_node_hash v N of
            Inl c \<Rightarrow> Inl c
          | Inr h \<Rightarrow> Inr (map_option snd (find (\<lambda>(h', n). h' = h \<and> index n = v) (entries t))))"
      by (simp add: sc_hash_lookup_def t8_msh_file_node_compare_def split: sum.splits)
  next
    assume "N \<noteq> 0 \<and> \<not> (i = - (2 ^ 63) \<and> N = - 1)"
    then show "t8_msh_file_node_hash i N = Inr (nat ((i smod N) mod 2 ^ 32))"
      by (auto simp: t8_msh_file_node_hash_def T8_LOCIDX_BITS_def)
  next
    assume z: "N = 0"
    then show "t8_msh_file_node_hash i N = Inl Div_By_Zero"
      by (simp add: t8_msh_file_node_hash_def)
    from z eq assms(5) N show "\<exists>fp'. t8_msh_file_read_nodes sc dbg fp0 =
          Inr \<lparr>nr_table = Some (sc_hash_new 0), nr_num_nodes = Some 0, nr_mempool = Live,
               nr_hash = Live, nr_fp = fp'\<rparr>"
      by simp
    show "fill_tree_vertices (Some (sc_hash_new 0)) c j (x # xs) found tv = Inl Div_By_Zero"
      by (simp add: sc_hash_lookup_def sc_hash_new_def t8_msh_file_node_hash_def)
  qed
qed


theorem node_hash_modulo_node_count_witness:
  "list_all terminated (butlast (contents (fopen msh_zero_nodes))) \<and>
   significant (contents (fopen msh_zero_nodes)) =
     [] @ ''$Nodes\<newline>'' # ''0\<newline>'' #
       [''$EndNodes\<newline>'', ''$Elements\<newline>'', ''1\<newline>'', ''1 2 0 1 2 3\<newline>'', ''$EndElements\<newline>''] \<and>
   sscanf_word ''$Nodes\<newline>'' = Inr (Some ''$Nodes'') \<and>
   scan_long decimal_scanf ''0\<newline>'' = Some (0, ''\<newline>'') \<and>
   - (2 ^ 63) \<le> (0 :: int) \<and> (0 :: int) < 2 ^ 63 \<and>
   t8_msh_file_node_hash 1 0 = Inl Div_By_Zero \<and>
   map_sum id (\<lambda>res. (nr_table res, nr_num_nodes res, nr_mempool res, nr_hash res))
     (t8_msh_file_read_nodes decimal_scanf False (fopen msh_zero_nodes))
     = Inr (Some (sc_hash_new 0), Some 0, Live, Live) \<and>
   fill_tree_vertices (Some (sc_hash_new 0)) T8_ECLASS_TRIANGLE 0 [1, 2, 3] None
     (replicate 24 (None :: int option)) = Inl Div_By_Zero \<and>
   t8_cmesh_from_msh_file decimal_scanf False (Some msh_zero_nodes) 0 2 = Inl Div_By_Zero \<and>
   significant (contents (fopen msh_line_triangle)) =
     [''$MeshFormat\<newline>'', ''2.2 0 8\<newline>'', ''$EndMeshFormat\<newline>''] @ ''$Nodes\<newline>'' # ''3\<newline>'' #
       [''1 0 0 0\<newline>'', ''2 1 0 0\<newline>'', ''3 0 1 0\<newline>'', ''$EndNodes\<newline>'', ''$Elements\<newline>'', ''2\<newline>'',
        ''1 1 0 1 2\<newline>'', ''2 2 0 1 2 3\<newline>'', ''$EndElements\<newline>''] \<and>
   list_all (\<lambda>p. case sscanf_word p of Inr (Some w) \<Rightarrow> w \<noteq> ''$Nodes'' | _ \<Rightarrow> False)
     [''$MeshFormat\<newline>'', ''2.2 0 8\<newline>'', ''$EndMeshFormat\<newline>''] \<and>
   scan_long decimal_scanf ''3\<newline>'' = Some (3, ''\<newline>'') \<and>
   nr_table (projr (t8_msh_file_read_nodes decimal_scanf False (fopen msh_line_triangle)))
     = Some triangle_table \<and>
   user_data triangle_table = 3 \<and>
   list_all (\<lambda>(h, n). t8_msh_file_node_hash (index n) 3 = Inr h) (entries triangle_table) \<and>
   t8_msh_file_node_hash 2 3 = Inr (nat ((2 smod 3) mod 2 ^ 32))"
proof -
  have h1: "list_all terminated (butlast (contents (fopen msh_zero_nodes)))"
    "list_all terminated (butlast (contents (fopen msh_line_triangle)))"
    by (simp_all add: fopen_def lines_of_terminated)
  have h2: "significant (contents (fopen msh_zero_nodes)) =
     [] @ ''$Nodes\<newline>'' # ''0\<newline>'' #
       [''$EndNodes\<newline>'', ''$Elements\<newline>'', ''1\<newline>'', ''1 2 0 1 2 3\<newline>'', ''$EndElements\<newline>'']"
    by code_simp
  have h2': "significant (contents (fopen msh_line_triangle)) =
     [''$MeshFormat\<newline>'', ''2.2 0 8\<newline>'', ''$EndMeshFormat\<newline>''] @ ''$Nodes\<newline>'' # ''3\<newline>'' #
       [''1 0 0 0\<newline>'', ''2 1 0 0\<newline>'', ''3 0 1 0\<newline>'', ''$EndNodes\<newline>'', ''$Elements\<newline>'', ''2\<newline>'',
        ''1 1 0 1 2\<newline>'', ''2 2 0 1 2 3\<newline>'', ''$EndElements\<newline>'']"
    by code_simp
  have h3: "list_all (\<lambda>p. case sscanf_word p of Inr (Some w) \<Rightarrow> w \<noteq> ''$Nodes'' | _ \<Rightarrow> False) []"
    by simp
  have h3': "list_all (\<lambda>p. case sscanf_word p of Inr (Some w) \<Rightarrow> w \<noteq> ''$Nodes'' | _ \<Rightarrow> False)
     [''$MeshFormat\<newline>'', ''2.2 0 8\<newline>'', ''$EndMeshFormat\<newline>'']"
    by code_simp
  have h4: "sscanf_word ''$Nodes\<newline>'' = Inr (Some ''$Nodes'')"
    by code_simp
  have h5: "scan_long decimal_scanf ''0\<newline>'' = Some (0, ''\<newline>'')"
    by code_simp
  have h5': "scan_long decimal_scanf ''3\<newline>'' = Some (3, ''\<newline>'')"
    by code_simp
  have run: "t8_cmesh_from_msh_file decimal_scanf False (Some msh_zero_nodes) 0 2 = Inl Div_By_Zero"
    by code_simp
  have tab: "map_sum id nr_table (t8_msh_file_read_nodes decimal_scanf False (fopen
      msh_line_triangle))
     = Inr (Some triangle_table)"
    by code_simp
  have r0: "- (2 ^ 63) \<le> (0 :: int)" "(0 :: int) < 2 ^ 63"
    and r3: "- (2 ^ 63) \<le> (3 :: int)" "(3 :: int) < 2 ^ 63"
    by simp_all
  note A = node_hash_modulo_node_count [OF h1(1) h2 h3 h4 h5 r0, of False 1 1 T8_ECLASS_TRIANGLE 0
      1 "[2, 3]" None "replicate 24 (None :: int option)"]
  note B = node_hash_modulo_node_count [OF h1(2) h2' h3' h4 h5' r3, of False 2 2
      T8_ECLASS_TRIANGLE 0
      1 "[2, 3]" None "replicate 24 (None :: int option)"]
  from A have A1: "t8_msh_file_node_hash 1 0 = Inl Div_By_Zero"
    and A3: "fill_tree_vertices (Some (sc_hash_new 0)) T8_ECLASS_TRIANGLE 0 [1, 2, 3] None
     (replicate 24 (None :: int option)) = Inl Div_By_Zero"
    and "\<exists>fp'. t8_msh_file_read_nodes decimal_scanf False (fopen msh_zero_nodes) =
          Inr \<lparr>nr_table = Some (sc_hash_new 0), nr_num_nodes = Some 0, nr_mempool = Live,
               nr_hash = Live, nr_fp = fp'\<rparr>"
    by simp_all
  then have A2: "map_sum id (\<lambda>res. (nr_table res, nr_num_nodes res, nr_mempool res, nr_hash res))
     (t8_msh_file_read_nodes decimal_scanf False (fopen msh_zero_nodes))
     = Inr (Some (sc_hash_new 0), Some 0, Live, Live)"
    by auto
  from tab obtain res where res: "t8_msh_file_read_nodes decimal_scanf False (fopen
      msh_line_triangle)
      = Inr res" "nr_table res = Some triangle_table"
    by (cases "t8_msh_file_read_nodes decimal_scanf False (fopen msh_line_triangle)") auto
  with B have B1: "user_data triangle_table = 3"
    "list_all (\<lambda>(h, n). t8_msh_file_node_hash (index n) 3 = Inr h) (entries triangle_table)"
    by blast+
  from B have B2: "t8_msh_file_node_hash 2 3 = Inr (nat ((2 smod 3) mod 2 ^ 32))"
    by simp
  from res have B3: "nr_table (projr (t8_msh_file_read_nodes decimal_scanf False
      (fopen msh_line_triangle))) = Some triangle_table"
    by simp
  from A1 A2 A3 B1 B2 B3 h1 h2 h2' h3' h4 h5 h5' run show ?thesis
    by simp
qed

subsection \<open>Failures that the reader does not report\<close>

text \<open>
  C2. The element \<open>1 2 4\<close> of the file \<^const>\<open>msh_undeclared\<close> names the node 4, which
  the node section does not declare. \<^verbatim>\<open>sc_hash_lookup\<close> does not find it and leaves
  \<^verbatim>\<open>found_node\<close> as it was, the reader does not read the return value, and the tree gets
  the coordinates of the node looked up before, here those of the node 2: the build does
  not abort and the mesh is committed. When the first lookup fails, \<^verbatim>\<open>found_node\<close> is
  read uninitialised.
\<close>

theorem undeclared_node_not_detected:
  "nr_table (projr (t8_msh_file_read_nodes decimal_scanf False (fopen msh_undeclared)))
     = Some triangle_table \<and>
   sc_hash_lookup triangle_table 4 = Inr None \<and>
   t8_cmesh_from_msh_file decimal_scanf False (Some msh_undeclared) 0 2
     = Inr (Some undeclared_mesh) \<and>
   t8_cmesh_from_msh_file decimal_scanf True (Some msh_undeclared) 0 2
     = Inr (Some undeclared_mesh) \<and>
   t8_cmesh_from_msh_file decimal_scanf False (Some msh_undeclared_first) 0 2
     = Inl Uninit_Read"
  by code_simp

text \<open>
  Without assertions nothing in the node build reads whether an index was in the table
  before: the build succeeds for every file with \<open>N\<close> node lines that convert, whether
  their indices differ or not.
\<close>

lemma node_build_without_assertions:
  assumes "list_all terminated (butlast (contents fp0))"
    and "significant (contents fp0) = pre @ m # cl # nls"
    and "list_all (\<lambda>p. case sscanf_word p of Inr (Some w) \<Rightarrow> w \<noteq> ''$Nodes'' | _ \<Rightarrow> False) pre"
    and "sscanf_word m = Inr (Some ''$Nodes'')"
    and "scan_long sc cl = Some (N, r)" and "0 < N" and "N < 2 ^ 63"
    and "nat N \<le> length nls"
    and "list_all (\<lambda>l. sscanf_node sc l \<noteq> None) (take (nat N) nls)"
  shows "\<exists>t fp'. t8_msh_file_read_nodes sc False fp0 =
     Inr \<lparr>nr_table = Some t, nr_num_nodes = Some N, nr_mempool = Live,
          nr_hash = Live, nr_fp = fp'\<rparr>"
proof -
  have N: "locidx_of_long N = N"
    using assms(6,7) by (intro locidx_of_long_id) simp_all
  from read_nodes_count_line [OF assms(1-4), of sc False] obtain fp2 where
    sig2: "significant (unread fp2) = nls"
    and eq: "t8_msh_file_read_nodes sc False fp0 =
       (case scan_long sc cl of
          None \<Rightarrow>
            Inr \<lparr>nr_table = None, nr_num_nodes = None, nr_mempool = Unallocated,
                 nr_hash = Unallocated, nr_fp = fp2\<rparr>
        | Some (lnum_nodes, r) \<Rightarrow>
            if False \<and> locidx_of_long lnum_nodes \<noteq> lnum_nodes then Inl Assertion_Failed
            else (case read_node_lines sc False (nat (locidx_of_long lnum_nodes)) (Some cl) fp2
                         (sc_hash_new (locidx_of_long lnum_nodes)) of
               Inl c \<Rightarrow> Inl c
             | Inr (None, fp'') \<Rightarrow>
                 Inr \<lparr>nr_table = None, nr_num_nodes = Some (locidx_of_long lnum_nodes),
                      nr_mempool = Destroyed, nr_hash = Destroyed, nr_fp = fp''\<rparr>
             | Inr (Some node_table, fp'') \<Rightarrow>
                 Inr \<lparr>nr_table = Some node_table, nr_num_nodes = Some (locidx_of_long lnum_nodes),
                      nr_mempool = Live, nr_hash = Live, nr_fp = fp''\<rparr>))"
    by blast
  have sp: "significant (unread fp2) = take (nat N) nls @ drop (nat N) nls"
    using sig2 by simp
  have pos: "0 < user_data (sc_hash_new N :: 'a sc_hash)"
    using assms(6) by (simp add: sc_hash_new_def)
  have len: "length (take (nat N) nls) = nat N"
    using assms(8) by simp
  from read_node_lines_prefix [where j = 0 and line = "Some cl" and dbg = False,
      OF sp assms(9) pos] len
  obtain line' fp' and tab' :: "'a sc_hash" where
    "read_node_lines sc False (nat N) (Some cl) fp2 (sc_hash_new N)
       = read_node_lines sc False 0 line' fp' tab'"
    by auto
  then have "read_node_lines sc False (nat N) (Some cl) fp2 (sc_hash_new N :: 'a sc_hash)
      = Inr (Some tab', fp')"
    by simp
  with eq assms(5) N show ?thesis by simp
qed

text \<open>
  C5. The file \<^const>\<open>msh_duplicate\<close> declares the node 1 twice.
  \<^verbatim>\<open>sc_hash_insert_unique\<close> returns 0 for the second line and only \<^verbatim>\<open>T8_ASSERT\<close> reads
  that: without assertions the build succeeds and keeps the first of the two nodes.
\<close>

theorem duplicate_node_not_detected:
  "map_sum id (\<lambda>res. (nr_table res, nr_num_nodes res, nr_mempool res, nr_hash res))
     (t8_msh_file_read_nodes decimal_scanf False (fopen msh_duplicate))
     = Inr (Some \<lparr>user_data = 2, entries = [(1, \<lparr>index = 1, coordinates = (0, 0, 0)\<rparr>)]\<rparr>,
            Some 2, Live, Live) \<and>
   t8_cmesh_from_msh_file decimal_scanf False (Some msh_duplicate) 0 0 = Inr (Some point_mesh) \<and>
   t8_cmesh_from_msh_file decimal_scanf True (Some msh_duplicate) 0 0 = Inl Assertion_Failed"
  by code_simp

lemma from_msh_file_not_null:
  "t8_cmesh_from_msh_file sc dbg (Some bytes) partition_arg dim \<noteq> Inr None"
  by (simp add: t8_cmesh_from_msh_file_def
      split: sum.splits resource.splits option.splits)

text \<open>
  C6. \<^verbatim>\<open>t8_cmesh_from_msh_file\<close> reads neither the result of the node build nor the return
  value of the element build. When the element build fails, it commits the mesh that
  \<^verbatim>\<open>t8_cmesh_destroy\<close> has released; when the node build fails behind its allocations, it
  destroys the pool a second time; when it fails before them, it destroys the pool through
  a null pointer. For a file that it could open it never returns NULL.
\<close>

theorem build_failure_not_reported:
  "t8_cmesh_from_msh_file decimal_scanf False (Some msh_second_order) 0 2 = Inl Use_After_Free \<and>
   t8_cmesh_from_msh_file decimal_scanf True (Some msh_second_order) 0 2 = Inl Use_After_Free \<and>
   map_sum id nr_mempool (t8_msh_file_read_nodes decimal_scanf False (fopen msh_short_node))
     = Inr Destroyed \<and>
   t8_cmesh_from_msh_file decimal_scanf False (Some msh_short_node) 0 2 = Inl Double_Free \<and>
   map_sum id nr_mempool (t8_msh_file_read_nodes decimal_scanf False (fopen msh_bad_count))
     = Inr Unallocated \<and>
   t8_cmesh_from_msh_file decimal_scanf False (Some msh_bad_count) 0 2 = Inl Null_Deref \<and>
   (\<forall>sc dbg bytes partition_arg dim.
      t8_cmesh_from_msh_file sc dbg (Some bytes) partition_arg dim \<noteq> Inr None)"
proof -
  have "t8_cmesh_from_msh_file decimal_scanf False (Some msh_second_order) 0 2 = Inl Use_After_Free"
    "t8_cmesh_from_msh_file decimal_scanf True (Some msh_second_order) 0 2 = Inl Use_After_Free"
    "map_sum id nr_mempool (t8_msh_file_read_nodes decimal_scanf False (fopen msh_short_node))
       = Inr Destroyed"
    "t8_cmesh_from_msh_file decimal_scanf False (Some msh_short_node) 0 2 = Inl Double_Free"
    "map_sum id nr_mempool (t8_msh_file_read_nodes decimal_scanf False (fopen msh_bad_count))
       = Inr Unallocated"
    "t8_cmesh_from_msh_file decimal_scanf False (Some msh_bad_count) 0 2 = Inl Null_Deref"
    by code_simp+
  then show ?thesis
    using from_msh_file_not_null by blast
qed

end
